theory Spec2Isabelle
  imports Main "HOL-Library.Monad_Syntax"
begin

section \<open>The data model of \<^verbatim>\<open>sjtu::list\<close> (src/list.hpp)\<close>

text \<open>
  A pointer is an address or \<^verbatim>\<open>nullptr\<close> (\<open>None\<close>). A \<^verbatim>\<open>node\<close> holds its two links
  and its element storage; \<open>val = None\<close> is the null \<^verbatim>\<open>val\<close> pointer of a sentinel.
\<close>

type_synonym ptr = "nat option"

record 'a node =
  prev :: ptr
  "next" :: ptr
  val :: "'a option"

text \<open>
  The class \<^verbatim>\<open>list\<close>: the two sentinel pointers and the counter \<^verbatim>\<open>size_t n\<close>.
  The counter is a natural number: \<^verbatim>\<open>++n\<close> is executed once per node allocated or moved in,
  and the nodes alive at any time are fewer than the addresses of the machine, so the
  increment never wraps. \<^verbatim>\<open>--n\<close> is modelled by \<open>size_dec\<close>, which writes out the wrap-around
  of an unsigned 64-bit counter at zero.
\<close>

record list_rec =
  head :: ptr
  tail :: ptr
  n :: nat

definition size_max :: nat where
  "size_max = 2 ^ 64 - 1"

definition size_dec :: "nat \<Rightarrow> nat" where
  "size_dec k = (if k = 0 then size_max else k - 1)"

text \<open>
  The classes \<^verbatim>\<open>iterator\<close> and \<^verbatim>\<open>const_iterator\<close> have the same two fields and, member for
  member, the same bodies; one record and one set of operators model both.
\<close>

record iterator =
  p :: ptr
  owner :: ptr

text \<open>
  The free store is a list of cells indexed by address: \<^verbatim>\<open>new\<close> appends a cell (its address
  is the length of the store, so it is fresh), \<^verbatim>\<open>delete\<close> empties the cell. An address beyond
  the store or with an empty cell is dangling. List objects live at addresses chosen by
  the caller.
\<close>

type_synonym 'a heap = "'a node option list"

record 'a state =
  nodes :: "'a heap"
  lists :: "nat \<Rightarrow> list_rec option"

text \<open>
  The exceptions of exceptions.hpp that list.hpp throws, and the three ways a call can
  end: it returns (the state after the call and the result), it throws (the exception and
  the state at the \<^verbatim>\<open>throw\<close>), or it dereferences a null or dangling pointer, which is
  undefined behaviour (\<open>Fault\<close>).
\<close>

datatype error = container_is_empty | invalid_iterator

datatype ('s, 'r) outcome = Return 's 'r | Throw error 's | Fault

subsection \<open>Reading and writing nodes through pointers\<close>

definition look :: "'a heap \<Rightarrow> nat \<Rightarrow> 'a node option" where
  "look h a = (if a < length h then h ! a else None)"

definition deref :: "'a heap \<Rightarrow> ptr \<Rightarrow> 'a node option" where
  "deref h q = (case q of None \<Rightarrow> None | Some a \<Rightarrow> look h a)"

definition set_prev :: "'a heap \<Rightarrow> ptr \<Rightarrow> ptr \<Rightarrow> 'a heap option" where
  "set_prev h q v =
     (case q of None \<Rightarrow> None
      | Some a \<Rightarrow> (case look h a of None \<Rightarrow> None
                   | Some nd \<Rightarrow> Some (h[a := Some (nd\<lparr>prev := v\<rparr>)])))"

definition set_next :: "'a heap \<Rightarrow> ptr \<Rightarrow> ptr \<Rightarrow> 'a heap option" where
  "set_next h q v =
     (case q of None \<Rightarrow> None
      | Some a \<Rightarrow> (case look h a of None \<Rightarrow> None
                   | Some nd \<Rightarrow> Some (h[a := Some (nd\<lparr>next := v\<rparr>)])))"

text \<open>\<^verbatim>\<open>new node()\<close>, \<^verbatim>\<open>new node(v)\<close> and \<^verbatim>\<open>delete\<close> (the destructor frees \<^verbatim>\<open>val\<close> with the node).\<close>

definition new_node :: "'a heap \<Rightarrow> 'a option \<Rightarrow> nat \<times> 'a heap" where
  "new_node h v = (length h, h @ [Some \<lparr>prev = None, next = None, val = v\<rparr>])"

definition delete_node :: "'a heap \<Rightarrow> nat \<Rightarrow> 'a heap" where
  "delete_node h a = h[a := None]"

text \<open>\<^verbatim>\<open>delete q\<close>: nothing for a null pointer, a fault for a dangling one.\<close>

definition delete_ptr :: "'a heap \<Rightarrow> ptr \<Rightarrow> 'a heap option" where
  "delete_ptr h q =
     (case q of None \<Rightarrow> Some h
      | Some a \<Rightarrow> (case look h a of None \<Rightarrow> None | Some nd \<Rightarrow> Some (delete_node h a)))"

subsection \<open>The protected link primitives\<close>

text \<open>
  \<^verbatim>\<open>node *insert(node *pos, node *cur)\<close>: the four assignments in the source's order, each
  reading the store as the previous one left it.
\<close>

definition insert_node :: "'a heap \<Rightarrow> ptr \<Rightarrow> ptr \<Rightarrow> 'a heap option" where
  "insert_node h pos cur = do {
     h1 \<leftarrow> set_next h cur pos;
     nd \<leftarrow> deref h1 pos;
     h2 \<leftarrow> set_prev h1 cur (prev nd);
     nd2 \<leftarrow> deref h2 pos;
     h3 \<leftarrow> set_next h2 (prev nd2) cur;
     set_prev h3 pos cur
   }"

text \<open>\<^verbatim>\<open>node *erase(node *pos)\<close>: unlink, then clear the node's own links.\<close>

definition erase_node :: "'a heap \<Rightarrow> ptr \<Rightarrow> 'a heap option" where
  "erase_node h pos = do {
     nd \<leftarrow> deref h pos;
     h1 \<leftarrow> set_next h (prev nd) (next nd);
     nd1 \<leftarrow> deref h1 pos;
     h2 \<leftarrow> set_prev h1 (next nd1) (prev nd1);
     h3 \<leftarrow> set_next h2 pos None;
     set_prev h3 pos None
   }"

subsection \<open>The iterator operators\<close>

text \<open>
  An operator takes the state (read only) and the iterator object; it returns the iterator
  object after the call and the operator's result, or throws with the iterator object as
  it is at the \<^verbatim>\<open>throw\<close>.
\<close>

definition deref_list :: "'a state \<Rightarrow> ptr \<Rightarrow> list_rec option" where
  "deref_list s q = (case q of None \<Rightarrow> None | Some l \<Rightarrow> lists s l)"

definition iterator_default :: iterator where
  "iterator_default = \<lparr>p = None, owner = None\<rparr>"

text \<open>\<^verbatim>\<open>iter++\<close> returns the copy taken before the move.\<close>

definition iterator_inc_post :: "'a state \<Rightarrow> iterator \<Rightarrow> (iterator, iterator) outcome" where
  "iterator_inc_post s it =
     (if owner it = None \<or> p it = None then Throw invalid_iterator it
      else (case deref_list s (owner it) of None \<Rightarrow> Fault
        | Some ow \<Rightarrow>
           (if p it = tail ow then Throw invalid_iterator it
            else (case deref (nodes s) (p it) of None \<Rightarrow> Fault
              | Some nd \<Rightarrow> Return (it\<lparr>p := next nd\<rparr>) it))))"

text \<open>\<^verbatim>\<open>++iter\<close> returns the iterator itself.\<close>

definition iterator_inc_pre :: "'a state \<Rightarrow> iterator \<Rightarrow> (iterator, iterator) outcome" where
  "iterator_inc_pre s it =
     (if owner it = None \<or> p it = None then Throw invalid_iterator it
      else (case deref_list s (owner it) of None \<Rightarrow> Fault
        | Some ow \<Rightarrow>
           (if p it = tail ow then Throw invalid_iterator it
            else (case deref (nodes s) (p it) of None \<Rightarrow> Fault
              | Some nd \<Rightarrow> Return (it\<lparr>p := next nd\<rparr>) (it\<lparr>p := next nd\<rparr>)))))"

definition iterator_dec_post :: "'a state \<Rightarrow> iterator \<Rightarrow> (iterator, iterator) outcome" where
  "iterator_dec_post s it =
     (if owner it = None \<or> p it = None then Throw invalid_iterator it
      else (case deref_list s (owner it) of None \<Rightarrow> Fault
        | Some ow \<Rightarrow>
           (if p it = head ow then Throw invalid_iterator it
            else if p it = tail ow then
              (if n ow = 0 then Throw invalid_iterator it
               else (case deref (nodes s) (tail ow) of None \<Rightarrow> Fault
                 | Some nd \<Rightarrow> Return (it\<lparr>p := prev nd\<rparr>) it))
            else (case deref (nodes s) (p it) of None \<Rightarrow> Fault
              | Some nd \<Rightarrow> Return (it\<lparr>p := prev nd\<rparr>) it))))"

definition iterator_dec_pre :: "'a state \<Rightarrow> iterator \<Rightarrow> (iterator, iterator) outcome" where
  "iterator_dec_pre s it =
     (if owner it = None \<or> p it = None then Throw invalid_iterator it
      else (case deref_list s (owner it) of None \<Rightarrow> Fault
        | Some ow \<Rightarrow>
           (if p it = head ow then Throw invalid_iterator it
            else if p it = tail ow then
              (if n ow = 0 then Throw invalid_iterator it
               else (case deref (nodes s) (tail ow) of None \<Rightarrow> Fault
                 | Some nd \<Rightarrow> Return (it\<lparr>p := prev nd\<rparr>) (it\<lparr>p := prev nd\<rparr>)))
            else (case deref (nodes s) (p it) of None \<Rightarrow> Fault
              | Some nd \<Rightarrow> Return (it\<lparr>p := prev nd\<rparr>) (it\<lparr>p := prev nd\<rparr>)))))"

text \<open>
  \<^verbatim>\<open>*it\<close> and \<^verbatim>\<open>it->\<close> evaluate the same condition left to right and hand out the element;
  neither changes the iterator.
\<close>

definition iterator_deref :: "'a state \<Rightarrow> iterator \<Rightarrow> (iterator, 'a) outcome" where
  "iterator_deref s it =
     (if owner it = None \<or> p it = None then Throw invalid_iterator it
      else (case deref_list s (owner it) of None \<Rightarrow> Fault
        | Some ow \<Rightarrow>
           (if p it = head ow \<or> p it = tail ow then Throw invalid_iterator it
            else (case deref (nodes s) (p it) of None \<Rightarrow> Fault
              | Some nd \<Rightarrow>
                 (case val nd of None \<Rightarrow> Throw invalid_iterator it
                  | Some v \<Rightarrow> Return it v)))))"

definition iterator_arrow :: "'a state \<Rightarrow> iterator \<Rightarrow> (iterator, 'a) outcome" where
  "iterator_arrow s it =
     (if owner it = None \<or> p it = None then Throw invalid_iterator it
      else (case deref_list s (owner it) of None \<Rightarrow> Fault
        | Some ow \<Rightarrow>
           (if p it = head ow \<or> p it = tail ow then Throw invalid_iterator it
            else (case deref (nodes s) (p it) of None \<Rightarrow> Fault
              | Some nd \<Rightarrow>
                 (case val nd of None \<Rightarrow> Throw invalid_iterator it
                  | Some v \<Rightarrow> Return it v)))))"

definition iterator_eq :: "iterator \<Rightarrow> iterator \<Rightarrow> bool" where
  "iterator_eq a b \<longleftrightarrow> p a = p b \<and> owner a = owner b"

definition iterator_neq :: "iterator \<Rightarrow> iterator \<Rightarrow> bool" where
  "iterator_neq a b \<longleftrightarrow> \<not> iterator_eq a b"

subsection \<open>The list: construction, access, insertion and removal\<close>

text \<open>
  A member function takes the state and \<^verbatim>\<open>this\<close>, the address of the list object. Reading
  a field of a list object that is not there is a fault, like any dangling read.
\<close>

definition list_ctor :: "'a state \<Rightarrow> nat \<Rightarrow> ('a state, unit) outcome" where
  "list_ctor s l =
     (let (hp, h1) = new_node (nodes s) None;
          (tp, h2) = new_node h1 None
      in (case set_next h2 (Some hp) (Some tp) of None \<Rightarrow> Fault
        | Some h3 \<Rightarrow>
           (case set_prev h3 (Some tp) (Some hp) of None \<Rightarrow> Fault
            | Some h4 \<Rightarrow>
               Return (s\<lparr>nodes := h4,
                         lists := (lists s)(l \<mapsto> \<lparr>head = Some hp, tail = Some tp, n = 0\<rparr>)\<rparr>) ())))"

definition list_front :: "'a state \<Rightarrow> nat \<Rightarrow> ('a state, 'a) outcome" where
  "list_front s l =
     (case lists s l of None \<Rightarrow> Fault
      | Some L \<Rightarrow>
         (if n L = 0 then Throw container_is_empty s
          else (case deref (nodes s) (head L) of None \<Rightarrow> Fault
            | Some hn \<Rightarrow>
               (case deref (nodes s) (next hn) of None \<Rightarrow> Fault
                | Some nd \<Rightarrow> (case val nd of None \<Rightarrow> Fault | Some v \<Rightarrow> Return s v)))))"

definition list_back :: "'a state \<Rightarrow> nat \<Rightarrow> ('a state, 'a) outcome" where
  "list_back s l =
     (case lists s l of None \<Rightarrow> Fault
      | Some L \<Rightarrow>
         (if n L = 0 then Throw container_is_empty s
          else (case deref (nodes s) (tail L) of None \<Rightarrow> Fault
            | Some tn \<Rightarrow>
               (case deref (nodes s) (prev tn) of None \<Rightarrow> Fault
                | Some nd \<Rightarrow> (case val nd of None \<Rightarrow> Fault | Some v \<Rightarrow> Return s v)))))"

text \<open>\<^verbatim>\<open>begin\<close>/\<^verbatim>\<open>cbegin\<close> and \<^verbatim>\<open>end\<close>/\<^verbatim>\<open>cend\<close>.\<close>

definition list_begin :: "'a state \<Rightarrow> nat \<Rightarrow> ('a state, iterator) outcome" where
  "list_begin s l =
     (case lists s l of None \<Rightarrow> Fault
      | Some L \<Rightarrow>
         (case deref (nodes s) (head L) of None \<Rightarrow> Fault
          | Some hn \<Rightarrow> Return s \<lparr>p = next hn, owner = Some l\<rparr>))"

definition list_end :: "'a state \<Rightarrow> nat \<Rightarrow> ('a state, iterator) outcome" where
  "list_end s l =
     (case lists s l of None \<Rightarrow> Fault
      | Some L \<Rightarrow> Return s \<lparr>p = tail L, owner = Some l\<rparr>)"

definition list_empty :: "'a state \<Rightarrow> nat \<Rightarrow> ('a state, bool) outcome" where
  "list_empty s l = (case lists s l of None \<Rightarrow> Fault | Some L \<Rightarrow> Return s (n L = 0))"

definition list_size :: "'a state \<Rightarrow> nat \<Rightarrow> ('a state, nat) outcome" where
  "list_size s l = (case lists s l of None \<Rightarrow> Fault | Some L \<Rightarrow> Return s (n L))"

text \<open>
  \<^verbatim>\<open>insert(pos, value)\<close>: the check, then \<^verbatim>\<open>new node(value)\<close>, the link primitive, \<^verbatim>\<open>++n\<close>.
\<close>

definition list_insert :: "'a state \<Rightarrow> nat \<Rightarrow> iterator \<Rightarrow> 'a \<Rightarrow> ('a state, iterator) outcome" where
  "list_insert s l pos v =
     (if owner pos \<noteq> Some l \<or> p pos = None then Throw invalid_iterator s
      else (let (cur, h1) = new_node (nodes s) (Some v)
        in (case insert_node h1 (p pos) (Some cur) of None \<Rightarrow> Fault
          | Some h2 \<Rightarrow>
             (case lists s l of None \<Rightarrow> Fault
              | Some L \<Rightarrow>
                 Return (s\<lparr>nodes := h2, lists := (lists s)(l \<mapsto> L\<lparr>n := n L + 1\<rparr>)\<rparr>)
                        \<lparr>p = Some cur, owner = Some l\<rparr>))))"

text \<open>
  \<^verbatim>\<open>erase(pos)\<close>: the two checks, then \<^verbatim>\<open>next = pos.p->next\<close>, the unlink primitive,
  \<^verbatim>\<open>delete pos.p\<close>, \<^verbatim>\<open>--n\<close>.
\<close>

definition list_erase :: "'a state \<Rightarrow> nat \<Rightarrow> iterator \<Rightarrow> ('a state, iterator) outcome" where
  "list_erase s l pos =
     (case lists s l of None \<Rightarrow> Fault
      | Some L \<Rightarrow>
         (if n L = 0 then Throw container_is_empty s
          else if owner pos \<noteq> Some l \<or> p pos = None \<or> p pos = tail L
            then Throw invalid_iterator s
          else (case deref (nodes s) (p pos) of None \<Rightarrow> Fault
            | Some nd \<Rightarrow>
               (case erase_node (nodes s) (p pos) \<bind> (\<lambda>h1. delete_ptr h1 (p pos)) of
                  None \<Rightarrow> Fault
                | Some h2 \<Rightarrow>
                   Return (s\<lparr>nodes := h2,
                             lists := (lists s)(l \<mapsto> L\<lparr>n := size_dec (n L)\<rparr>)\<rparr>)
                          \<lparr>p = next nd, owner = Some l\<rparr>))))"

definition list_push_back :: "'a state \<Rightarrow> nat \<Rightarrow> 'a \<Rightarrow> ('a state, unit) outcome" where
  "list_push_back s l v =
     (let (cur, h1) = new_node (nodes s) (Some v)
      in (case lists s l of None \<Rightarrow> Fault
        | Some L \<Rightarrow>
           (case insert_node h1 (tail L) (Some cur) of None \<Rightarrow> Fault
            | Some h2 \<Rightarrow>
               Return (s\<lparr>nodes := h2, lists := (lists s)(l \<mapsto> L\<lparr>n := n L + 1\<rparr>)\<rparr>) ())))"

definition list_pop_back :: "'a state \<Rightarrow> nat \<Rightarrow> ('a state, unit) outcome" where
  "list_pop_back s l =
     (case lists s l of None \<Rightarrow> Fault
      | Some L \<Rightarrow>
         (if n L = 0 then Throw container_is_empty s
          else (case deref (nodes s) (tail L) of None \<Rightarrow> Fault
            | Some tn \<Rightarrow>
               (case erase_node (nodes s) (prev tn) \<bind> (\<lambda>h1. delete_ptr h1 (prev tn)) of
                  None \<Rightarrow> Fault
                | Some h2 \<Rightarrow>
                   Return (s\<lparr>nodes := h2,
                             lists := (lists s)(l \<mapsto> L\<lparr>n := size_dec (n L)\<rparr>)\<rparr>) ()))))"

definition list_push_front :: "'a state \<Rightarrow> nat \<Rightarrow> 'a \<Rightarrow> ('a state, unit) outcome" where
  "list_push_front s l v =
     (let (cur, h1) = new_node (nodes s) (Some v)
      in (case lists s l of None \<Rightarrow> Fault
        | Some L \<Rightarrow>
           (case deref h1 (head L) of None \<Rightarrow> Fault
            | Some hn \<Rightarrow>
               (case insert_node h1 (next hn) (Some cur) of None \<Rightarrow> Fault
                | Some h2 \<Rightarrow>
                   Return (s\<lparr>nodes := h2, lists := (lists s)(l \<mapsto> L\<lparr>n := n L + 1\<rparr>)\<rparr>) ()))))"

definition list_pop_front :: "'a state \<Rightarrow> nat \<Rightarrow> ('a state, unit) outcome" where
  "list_pop_front s l =
     (case lists s l of None \<Rightarrow> Fault
      | Some L \<Rightarrow>
         (if n L = 0 then Throw container_is_empty s
          else (case deref (nodes s) (head L) of None \<Rightarrow> Fault
            | Some hn \<Rightarrow>
               (case erase_node (nodes s) (next hn) \<bind> (\<lambda>h1. delete_ptr h1 (next hn)) of
                  None \<Rightarrow> Fault
                | Some h2 \<Rightarrow>
                   Return (s\<lparr>nodes := h2,
                             lists := (lists s)(l \<mapsto> L\<lparr>n := size_dec (n L)\<rparr>)\<rparr>) ()))))"

subsection \<open>The loops: clear, copying, merge, reverse, unique\<close>

text \<open>
  A \<^verbatim>\<open>while\<close> over the links need not end on a store whose links form a cycle, so each
  loop is a partial function: \<open>None\<close> is the loop that never returns.
\<close>

partial_function (option) clear_loop ::
  "'a state \<Rightarrow> nat \<Rightarrow> ptr \<Rightarrow> ('a state, unit) outcome option" where
  "clear_loop s l cur =
     (case lists s l of None \<Rightarrow> Some Fault
      | Some L \<Rightarrow>
         (if cur \<noteq> tail L then
            (case deref (nodes s) cur of None \<Rightarrow> Some Fault
             | Some nd \<Rightarrow>
                (case set_next (nodes s) cur None \<bind> (\<lambda>h1. set_prev h1 cur None)
                        \<bind> (\<lambda>h2. delete_ptr h2 cur) of
                   None \<Rightarrow> Some Fault
                 | Some h3 \<Rightarrow> clear_loop (s\<lparr>nodes := h3\<rparr>) l (next nd)))
          else Some (Return s ())))"

definition list_clear :: "'a state \<Rightarrow> nat \<Rightarrow> ('a state, unit) outcome option" where
  "list_clear s l =
     (case lists s l of None \<Rightarrow> Some Fault
      | Some L \<Rightarrow>
         (case deref (nodes s) (head L) of None \<Rightarrow> Some Fault
          | Some hn \<Rightarrow>
             (case clear_loop s l (next hn) of None \<Rightarrow> None
              | Some Fault \<Rightarrow> Some Fault
              | Some (Throw e s') \<Rightarrow> Some (Throw e s')
              | Some (Return s1 u) \<Rightarrow>
                 (case lists s1 l of None \<Rightarrow> Some Fault
                  | Some L1 \<Rightarrow>
                     (case set_next (nodes s1) (head L1) (tail L1)
                             \<bind> (\<lambda>h1. set_prev h1 (tail L1) (head L1)) of
                        None \<Rightarrow> Some Fault
                      | Some h2 \<Rightarrow>
                         Some (Return (s1\<lparr>nodes := h2,
                                          lists := (lists s1)(l \<mapsto> L1\<lparr>n := 0\<rparr>)\<rparr>) ()))))))"

text \<open>
  The loop shared by the copy constructor and \<^verbatim>\<open>operator=\<close>:
  \<^verbatim>\<open>for (it = other.cbegin(); it != other.cend(); ++it) push_back(*it);\<close>
\<close>

partial_function (option) copy_loop ::
  "'a state \<Rightarrow> nat \<Rightarrow> nat \<Rightarrow> iterator \<Rightarrow> ('a state, unit) outcome option" where
  "copy_loop s l other it =
     (case list_end s other of Fault \<Rightarrow> Some Fault
      | Throw e s' \<Rightarrow> Some (Throw e s')
      | Return s' e \<Rightarrow>
         (if iterator_neq it e then
            (case iterator_deref s it of Fault \<Rightarrow> Some Fault
             | Throw er it' \<Rightarrow> Some (Throw er s)
             | Return it' v \<Rightarrow>
                (case list_push_back s l v of Fault \<Rightarrow> Some Fault
                 | Throw er s1 \<Rightarrow> Some (Throw er s1)
                 | Return s1 u \<Rightarrow>
                    (case iterator_inc_pre s1 it of Fault \<Rightarrow> Some Fault
                     | Throw er it1 \<Rightarrow> Some (Throw er s1)
                     | Return it1 r \<Rightarrow> copy_loop s1 l other it1)))
          else Some (Return s ())))"

text \<open>\<^verbatim>\<open>list(const list &other) : list()\<close>, constructing at address \<open>l\<close>.\<close>

definition list_copy :: "'a state \<Rightarrow> nat \<Rightarrow> nat \<Rightarrow> ('a state, unit) outcome option" where
  "list_copy s l other =
     (case list_ctor s l of Fault \<Rightarrow> Some Fault
      | Throw e s' \<Rightarrow> Some (Throw e s')
      | Return s0 u \<Rightarrow>
         (case list_begin s0 other of Fault \<Rightarrow> Some Fault
          | Throw e s' \<Rightarrow> Some (Throw e s')
          | Return s1 it \<Rightarrow> copy_loop s1 l other it))"

text \<open>\<^verbatim>\<open>operator=\<close>: the self-assignment test comes before anything is read or released.\<close>

definition list_assign :: "'a state \<Rightarrow> nat \<Rightarrow> nat \<Rightarrow> ('a state, unit) outcome option" where
  "list_assign s l other =
     (if l = other then Some (Return s ())
      else (case list_clear s l of None \<Rightarrow> None
        | Some Fault \<Rightarrow> Some Fault
        | Some (Throw e s') \<Rightarrow> Some (Throw e s')
        | Some (Return s0 u) \<Rightarrow>
           (case list_begin s0 other of Fault \<Rightarrow> Some Fault
            | Throw e s' \<Rightarrow> Some (Throw e s')
            | Return s1 it \<Rightarrow> copy_loop s1 l other it)))"

text \<open>\<^verbatim>\<open>~list()\<close>: clear, free both sentinels; the object is gone afterwards.\<close>

definition list_dtor :: "'a state \<Rightarrow> nat \<Rightarrow> ('a state, unit) outcome option" where
  "list_dtor s l =
     (case list_clear s l of None \<Rightarrow> None
      | Some Fault \<Rightarrow> Some Fault
      | Some (Throw e s') \<Rightarrow> Some (Throw e s')
      | Some (Return s0 u) \<Rightarrow>
         (case lists s0 l of None \<Rightarrow> Some Fault
          | Some L \<Rightarrow>
             (case delete_ptr (nodes s0) (head L) \<bind> (\<lambda>h1. delete_ptr h1 (tail L)) of
                None \<Rightarrow> Some Fault
              | Some h2 \<Rightarrow> Some (Return (s0\<lparr>nodes := h2, lists := (lists s0)(l := None)\<rparr>) ()))))"

text \<open>\<^verbatim>\<open>++n\<close> and \<^verbatim>\<open>--n\<close> on the list object at an address.\<close>

definition inc_n :: "'a state \<Rightarrow> nat \<Rightarrow> 'a state option" where
  "inc_n s l =
     (case lists s l of None \<Rightarrow> None
      | Some L \<Rightarrow> Some (s\<lparr>lists := (lists s)(l \<mapsto> L\<lparr>n := n L + 1\<rparr>)\<rparr>))"

definition dec_n :: "'a state \<Rightarrow> nat \<Rightarrow> 'a state option" where
  "dec_n s l =
     (case lists s l of None \<Rightarrow> None
      | Some L \<Rightarrow> Some (s\<lparr>lists := (lists s)(l \<mapsto> L\<lparr>n := size_dec (n L)\<rparr>)\<rparr>))"

text \<open>
  \<^verbatim>\<open>merge\<close>: the two-cursor loop, which hands its \<^verbatim>\<open>bi\<close> to the loop that appends the rest
  of \<^verbatim>\<open>other\<close>. Elements are compared with \<open><\<close> of the element type, a linear order.
\<close>

partial_function (option) merge_loop1 ::
  "('a::linorder) state \<Rightarrow> nat \<Rightarrow> nat \<Rightarrow> ptr \<Rightarrow> ptr \<Rightarrow> ('a state, ptr) outcome option" where
  "merge_loop1 s l other ai bi =
     (case lists s l of None \<Rightarrow> Some Fault
      | Some L \<Rightarrow>
         (if ai = tail L then Some (Return s bi)
          else (case lists s other of None \<Rightarrow> Some Fault
            | Some B \<Rightarrow>
               (if bi = tail B then Some (Return s bi)
                else (case deref (nodes s) bi of None \<Rightarrow> Some Fault
                  | Some bn \<Rightarrow>
                     (case deref (nodes s) ai of None \<Rightarrow> Some Fault
                      | Some an \<Rightarrow>
                         (case val bn of None \<Rightarrow> Some Fault
                          | Some bv \<Rightarrow>
                             (case val an of None \<Rightarrow> Some Fault
                              | Some av \<Rightarrow>
                                 (if bv < av then
                                    (case erase_node (nodes s) bi
                                            \<bind> (\<lambda>h1. insert_node h1 ai bi) of
                                       None \<Rightarrow> Some Fault
                                     | Some h2 \<Rightarrow>
                                        (case inc_n (s\<lparr>nodes := h2\<rparr>) l
                                                \<bind> (\<lambda>s2. dec_n s2 other) of
                                           None \<Rightarrow> Some Fault
                                         | Some s3 \<Rightarrow> merge_loop1 s3 l other ai (next bn)))
                                  else merge_loop1 s l other (next an) bi)))))))))"

partial_function (option) merge_loop2 ::
  "'a state \<Rightarrow> nat \<Rightarrow> nat \<Rightarrow> ptr \<Rightarrow> ('a state, unit) outcome option" where
  "merge_loop2 s l other bi =
     (case lists s other of None \<Rightarrow> Some Fault
      | Some B \<Rightarrow>
         (if bi \<noteq> tail B then
            (case deref (nodes s) bi of None \<Rightarrow> Some Fault
             | Some bn \<Rightarrow>
                (case lists s l of None \<Rightarrow> Some Fault
                 | Some L \<Rightarrow>
                    (case erase_node (nodes s) bi \<bind> (\<lambda>h1. insert_node h1 (tail L) bi) of
                       None \<Rightarrow> Some Fault
                     | Some h2 \<Rightarrow>
                        (case inc_n (s\<lparr>nodes := h2\<rparr>) l \<bind> (\<lambda>s2. dec_n s2 other) of
                           None \<Rightarrow> Some Fault
                         | Some s3 \<Rightarrow> merge_loop2 s3 l other (next bn)))))
          else Some (Return s ())))"

definition list_merge ::
  "('a::linorder) state \<Rightarrow> nat \<Rightarrow> nat \<Rightarrow> ('a state, unit) outcome option" where
  "list_merge s l other =
     (if other = l then Some (Return s ())
      else (case lists s l of None \<Rightarrow> Some Fault
        | Some L \<Rightarrow>
           (case deref (nodes s) (head L) of None \<Rightarrow> Some Fault
            | Some hn \<Rightarrow>
               (case lists s other of None \<Rightarrow> Some Fault
                | Some B \<Rightarrow>
                   (case deref (nodes s) (head B) of None \<Rightarrow> Some Fault
                    | Some bhn \<Rightarrow>
                       (case merge_loop1 s l other (next hn) (next bhn) of None \<Rightarrow> None
                        | Some Fault \<Rightarrow> Some Fault
                        | Some (Throw e s') \<Rightarrow> Some (Throw e s')
                        | Some (Return s1 bi) \<Rightarrow>
                           (case merge_loop2 s1 l other bi of None \<Rightarrow> None
                            | Some Fault \<Rightarrow> Some Fault
                            | Some (Throw e s') \<Rightarrow> Some (Throw e s')
                            | Some (Return s2 u) \<Rightarrow>
                               (case lists s2 other of None \<Rightarrow> Some Fault
                                | Some B2 \<Rightarrow>
                                   (case set_next (nodes s2) (head B2) (tail B2)
                                           \<bind> (\<lambda>h1. set_prev h1 (tail B2) (head B2)) of
                                      None \<Rightarrow> Some Fault
                                    | Some h2 \<Rightarrow> Some (Return (s2\<lparr>nodes := h2\<rparr>) ()))))))))))"

text \<open>
  \<^verbatim>\<open>reverse\<close>: \<^verbatim>\<open>while (cur)\<close> swaps the two links of every node from the head sentinel on,
  following the old \<^verbatim>\<open>next\<close>; then the two sentinel pointers are swapped.
\<close>

partial_function (option) reverse_loop ::
  "'a state \<Rightarrow> ptr \<Rightarrow> ('a state, unit) outcome option" where
  "reverse_loop s cur =
     (case cur of None \<Rightarrow> Some (Return s ())
      | Some c \<Rightarrow>
         (case deref (nodes s) cur of None \<Rightarrow> Some Fault
          | Some nd \<Rightarrow>
             (case set_next (nodes s) cur (prev nd) \<bind> (\<lambda>h1. set_prev h1 cur (next nd)) of
                None \<Rightarrow> Some Fault
              | Some h2 \<Rightarrow>
                 (case deref h2 cur of None \<Rightarrow> Some Fault
                  | Some nd2 \<Rightarrow> reverse_loop (s\<lparr>nodes := h2\<rparr>) (prev nd2)))))"

definition list_reverse :: "'a state \<Rightarrow> nat \<Rightarrow> ('a state, unit) outcome option" where
  "list_reverse s l =
     (case lists s l of None \<Rightarrow> Some Fault
      | Some L \<Rightarrow>
         (case reverse_loop s (head L) of None \<Rightarrow> None
          | Some Fault \<Rightarrow> Some Fault
          | Some (Throw e s') \<Rightarrow> Some (Throw e s')
          | Some (Return s1 u) \<Rightarrow>
             (case lists s1 l of None \<Rightarrow> Some Fault
              | Some L1 \<Rightarrow>
                 Some (Return (s1\<lparr>lists := (lists s1)(l \<mapsto> L1\<lparr>head := tail L1, tail := head L1\<rparr>)\<rparr>)
                              ()))))"

text \<open>
  \<^verbatim>\<open>unique\<close>: the inner loop frees the nodes after \<^verbatim>\<open>cur\<close> whose element equals that of
  \<^verbatim>\<open>cur\<close>, the outer loop goes on from the first node that differs. Elements are compared
  with the equality of the element type.
\<close>

partial_function (option) unique_inner ::
  "'a state \<Rightarrow> nat \<Rightarrow> ptr \<Rightarrow> ptr \<Rightarrow> ('a state, ptr) outcome option" where
  "unique_inner s l cur nx =
     (case lists s l of None \<Rightarrow> Some Fault
      | Some L \<Rightarrow>
         (if nx = tail L then Some (Return s nx)
          else (case deref (nodes s) cur of None \<Rightarrow> Some Fault
            | Some cn \<Rightarrow>
               (case deref (nodes s) nx of None \<Rightarrow> Some Fault
                | Some xn \<Rightarrow>
                   (case val cn of None \<Rightarrow> Some Fault
                    | Some cv \<Rightarrow>
                       (case val xn of None \<Rightarrow> Some Fault
                        | Some xv \<Rightarrow>
                           (if cv = xv then
                              (case erase_node (nodes s) nx \<bind> (\<lambda>h1. delete_ptr h1 nx) of
                                 None \<Rightarrow> Some Fault
                               | Some h2 \<Rightarrow>
                                  (case dec_n (s\<lparr>nodes := h2\<rparr>) l of None \<Rightarrow> Some Fault
                                   | Some s2 \<Rightarrow> unique_inner s2 l cur (next xn)))
                            else Some (Return s nx))))))))"

partial_function (option) unique_outer ::
  "'a state \<Rightarrow> nat \<Rightarrow> ptr \<Rightarrow> ('a state, unit) outcome option" where
  "unique_outer s l cur =
     (case lists s l of None \<Rightarrow> Some Fault
      | Some L \<Rightarrow>
         (if cur \<noteq> tail L then
            (case deref (nodes s) cur of None \<Rightarrow> Some Fault
             | Some cn \<Rightarrow>
                (case unique_inner s l cur (next cn) of None \<Rightarrow> None
                 | Some Fault \<Rightarrow> Some Fault
                 | Some (Throw e s') \<Rightarrow> Some (Throw e s')
                 | Some (Return s1 nx) \<Rightarrow> unique_outer s1 l nx))
          else Some (Return s ())))"

definition list_unique :: "'a state \<Rightarrow> nat \<Rightarrow> ('a state, unit) outcome option" where
  "list_unique s l =
     (case lists s l of None \<Rightarrow> Some Fault
      | Some L \<Rightarrow>
         (if n L \<le> 1 then Some (Return s ())
          else (case deref (nodes s) (head L) of None \<Rightarrow> Some Fault
            | Some hn \<Rightarrow> unique_outer s l (next hn))))"

text \<open>
  \<^verbatim>\<open>sort\<close>: the loop that writes the data node pointers into \<^verbatim>\<open>arr\<close> (a write beyond its
  \<^verbatim>\<open>n\<close> entries is a fault), the call of the sorting helper, and the relinking pass.

  Modelled from the spec: \<^verbatim>\<open>sjtu::sort\<close> of algorithm.hpp is not among the sources; the
  specification calls it a comparison-based sort over an array of node references. It is
  the parameter \<open>srt\<close> of \<open>list_sort\<close>, given the comparison and the array; the comparison
  \<open>elem_less\<close> is the lambda of list.hpp, and \<open>has_elem\<close> says that it can be evaluated at a
  pointer without a fault.
\<close>

partial_function (option) sort_collect ::
  "'a state \<Rightarrow> nat \<Rightarrow> ptr \<Rightarrow> ptr list \<Rightarrow> ('a state, ptr list) outcome option" where
  "sort_collect s l cur arr =
     (case lists s l of None \<Rightarrow> Some Fault
      | Some L \<Rightarrow>
         (if cur \<noteq> tail L then
            (if length arr < n L then
               (case deref (nodes s) cur of None \<Rightarrow> Some Fault
                | Some nd \<Rightarrow> sort_collect s l (next nd) (arr @ [cur]))
             else Some Fault)
          else Some (Return s arr)))"

fun relink :: "'a heap \<Rightarrow> ptr list \<Rightarrow> 'a heap option" where
  "relink h (a # b # qs) =
     set_next h a b \<bind> (\<lambda>h1. set_prev h1 b a) \<bind> (\<lambda>h2. relink h2 (b # qs))"
| "relink h qs = Some h"

definition has_elem :: "'a heap \<Rightarrow> ptr \<Rightarrow> bool" where
  "has_elem h q = (case deref h q of None \<Rightarrow> False | Some nd \<Rightarrow> val nd \<noteq> None)"

definition elem_less :: "('a::linorder) heap \<Rightarrow> ptr \<Rightarrow> ptr \<Rightarrow> bool" where
  "elem_less h a b =
     (case deref h a of None \<Rightarrow> False
      | Some an \<Rightarrow>
         (case deref h b of None \<Rightarrow> False
          | Some bn \<Rightarrow>
             (case val an of None \<Rightarrow> False
              | Some av \<Rightarrow> (case val bn of None \<Rightarrow> False | Some bv \<Rightarrow> av < bv))))"

definition list_sort ::
  "((ptr \<Rightarrow> ptr \<Rightarrow> bool) \<Rightarrow> ptr list \<Rightarrow> ptr list) \<Rightarrow> ('a::linorder) state \<Rightarrow> nat
     \<Rightarrow> ('a state, unit) outcome option" where
  "list_sort srt s l =
     (case lists s l of None \<Rightarrow> Some Fault
      | Some L \<Rightarrow>
         (if n L \<le> 1 then Some (Return s ())
          else (case deref (nodes s) (head L) of None \<Rightarrow> Some Fault
            | Some hn \<Rightarrow>
               (case sort_collect s l (next hn) [] of None \<Rightarrow> None
                | Some Fault \<Rightarrow> Some Fault
                | Some (Throw e s') \<Rightarrow> Some (Throw e s')
                | Some (Return s1 arr) \<Rightarrow>
                   (if length arr \<noteq> n L \<or> \<not> list_all (has_elem (nodes s1)) arr then Some Fault
                    else (let arr' = srt (elem_less (nodes s1)) arr
                      in (if length arr' \<noteq> length arr then Some Fault
                          else (case set_next (nodes s1) (head L) (arr' ! 0)
                                       \<bind> (\<lambda>h1. set_prev h1 (arr' ! 0) (head L))
                                       \<bind> (\<lambda>h2. relink h2 arr')
                                       \<bind> (\<lambda>h3. set_next h3 (arr' ! (n L - 1)) (tail L))
                                       \<bind> (\<lambda>h4. set_prev h4 (tail L) (arr' ! (n L - 1))) of
                                  None \<Rightarrow> Some Fault
                                | Some h5 \<Rightarrow> Some (Return (s1\<lparr>nodes := h5\<rparr>) ())))))))))"

section \<open>Well-formed lists\<close>

text \<open>
  The links, the element and the element skeleton of a store, read as functions of the
  address. The skeleton \<open>vals\<close> records for every address whether a node lives there and
  which element it holds; relinking leaves it unchanged.
\<close>

definition nxt :: "'a heap \<Rightarrow> nat \<Rightarrow> ptr" where
  "nxt h a = (case look h a of None \<Rightarrow> None | Some nd \<Rightarrow> next nd)"

definition prv :: "'a heap \<Rightarrow> nat \<Rightarrow> ptr" where
  "prv h a = (case look h a of None \<Rightarrow> None | Some nd \<Rightarrow> prev nd)"

definition vl :: "'a heap \<Rightarrow> nat \<Rightarrow> 'a option" where
  "vl h a = (case look h a of None \<Rightarrow> None | Some nd \<Rightarrow> val nd)"

definition vals :: "'a heap \<Rightarrow> 'a option option list" where
  "vals h = map (map_option val) h"

primrec hdp :: "ptr \<Rightarrow> nat list \<Rightarrow> ptr" where
  "hdp q [] = q"
| "hdp q (x # xs) = Some x"

primrec succs :: "ptr \<Rightarrow> nat list \<Rightarrow> ptr list" where
  "succs q [] = []"
| "succs q (x # xs) = hdp q xs # succs q xs"

text \<open>
  \<open>succs q cs\<close> lists, for each node of the path \<open>cs\<close>, the pointer to the node after it,
  \<open>q\<close> after the last. A chain is a path without repetition of live nodes whose \<^verbatim>\<open>next\<close>
  links follow the path and whose \<^verbatim>\<open>prev\<close> links follow it backwards, null at both ends.
\<close>

definition links :: "'a heap \<Rightarrow> nat list \<Rightarrow> bool" where
  "links h cs \<longleftrightarrow>
     distinct cs \<and> list_all (\<lambda>a. look h a \<noteq> None) cs \<and>
     map (nxt h) cs = succs None cs \<and> map (prv h) (rev cs) = succs None (rev cs)"

text \<open>
  The list object at \<open>l\<close> is well formed with head sentinel \<open>hn\<close>, data nodes \<open>as\<close> (in
  order), tail sentinel \<open>tn\<close> and elements \<open>xs\<close>: the chain from \<open>hn\<close> to \<open>tn\<close> is doubly
  linked without repetition, the outer links of the sentinels are null, only the data nodes
  hold elements, and the counter is the number of data nodes.
\<close>

definition is_list :: "'a state \<Rightarrow> nat \<Rightarrow> nat \<Rightarrow> nat list \<Rightarrow> nat \<Rightarrow> 'a list \<Rightarrow> bool" where
  "is_list s l hn as tn xs \<longleftrightarrow>
     lists s l = Some \<lparr>head = Some hn, tail = Some tn, n = length as\<rparr> \<and>
     links (nodes s) (hn # as @ [tn]) \<and>
     vl (nodes s) hn = None \<and> vl (nodes s) tn = None \<and>
     map (vl (nodes s)) as = map Some xs"

text \<open>What one iteration of the loop of \<^verbatim>\<open>reverse\<close> does to a node.\<close>

definition swap_links :: "'a node \<Rightarrow> 'a node" where
  "swap_links nd = nd\<lparr>next := prev nd, prev := next nd\<rparr>"

section \<open>What unique keeps\<close>

text \<open>
  What \<^verbatim>\<open>unique\<close> keeps, read off the loops: the node \<^verbatim>\<open>cur\<close> stays and the nodes after it are
  dropped as long as they compare equal to it. The argument \<open>f\<close> gives the element of a node.
\<close>

fun uniq_nodes :: "('b \<Rightarrow> 'v) \<Rightarrow> 'b list \<Rightarrow> 'b list" where
  "uniq_nodes f [] = []"
| "uniq_nodes f [a] = [a]"
| "uniq_nodes f (a # b # cs) =
     (if f a = f b then uniq_nodes f (a # cs) else a # uniq_nodes f (b # cs))"

text \<open>
  What \<^verbatim>\<open>unique\<close> is to keep, in the words of the specification: the first element of each
  maximal run of equal elements, that is, the first element and every element that differs
  from the one before it.
\<close>

definition run_heads :: "('b \<Rightarrow> 'v) \<Rightarrow> 'b list \<Rightarrow> 'b list" where
  "run_heads f cs =
     (case cs of [] \<Rightarrow> []
      | a # bs \<Rightarrow> a # map snd (filter (\<lambda>(u, v). f u \<noteq> f v) (zip cs bs)))"

section \<open>What merge produces\<close>

text \<open>
  The order in which the two loops of \<^verbatim>\<open>merge\<close> link the nodes, read off the code: while both
  lists have nodes left, the first node of \<^verbatim>\<open>other\<close> goes first if its element is less than that
  of the first node of \<^verbatim>\<open>this\<close>, else the first node of \<^verbatim>\<open>this\<close> stays in front; when \<^verbatim>\<open>this\<close>
  is used up the rest of \<^verbatim>\<open>other\<close> is appended. \<open>k\<close> gives the element of a node.
\<close>

fun merge_nodes :: "('b \<Rightarrow> 'v::linorder) \<Rightarrow> 'b list \<Rightarrow> 'b list \<Rightarrow> 'b list" where
  "merge_nodes k [] bs = bs"
| "merge_nodes k (a # as) [] = a # as"
| "merge_nodes k (a # as) (b # bs) =
     (if k b < k a then b # merge_nodes k (a # as) bs else a # merge_nodes k as (b # bs))"

text \<open>The same on nodes tagged with their elements.\<close>

fun merge_tagged :: "('t \<times> 'v::linorder) list \<Rightarrow> ('t \<times> 'v) list \<Rightarrow> ('t \<times> 'v) list" where
  "merge_tagged [] ys = ys"
| "merge_tagged (x # xs) [] = x # xs"
| "merge_tagged (x # xs) (y # ys) =
     (if snd y < snd x then y # merge_tagged (x # xs) ys else x # merge_tagged xs (y # ys))"

section \<open>Sequences of pushes and pops\<close>

text \<open>
  A program that calls \<^verbatim>\<open>push_back\<close>, \<^verbatim>\<open>push_front\<close>, \<^verbatim>\<open>pop_back\<close> and \<^verbatim>\<open>pop_front\<close> on one
  list, one call after the other; an exception or a fault ends it. \<open>pops_guarded k cs\<close>
  says that, starting with \<open>k\<close> elements, every pop of \<open>cs\<close> finds the list non-empty.
\<close>

datatype 'a op = Push_back 'a | Push_front 'a | Pop_back | Pop_front

fun apply_op :: "'a state \<Rightarrow> nat \<Rightarrow> 'a op \<Rightarrow> ('a state, unit) outcome" where
  "apply_op s l (Push_back v) = list_push_back s l v"
| "apply_op s l (Push_front v) = list_push_front s l v"
| "apply_op s l Pop_back = list_pop_back s l"
| "apply_op s l Pop_front = list_pop_front s l"

fun run_ops :: "'a state \<Rightarrow> nat \<Rightarrow> 'a op list \<Rightarrow> ('a state, unit) outcome" where
  "run_ops s l [] = Return s ()"
| "run_ops s l (c # cs) =
     (case apply_op s l c of Return s' u \<Rightarrow> run_ops s' l cs
      | Throw e s' \<Rightarrow> Throw e s'
      | Fault \<Rightarrow> Fault)"

fun is_push :: "'a op \<Rightarrow> bool" where
  "is_push (Push_back v) = True"
| "is_push (Push_front v) = True"
| "is_push Pop_back = False"
| "is_push Pop_front = False"

definition pushes :: "'a op list \<Rightarrow> nat" where
  "pushes cs = length (filter is_push cs)"

definition pops :: "'a op list \<Rightarrow> nat" where
  "pops cs = length (filter (\<lambda>c. \<not> is_push c) cs)"

fun pops_guarded :: "nat \<Rightarrow> 'a op list \<Rightarrow> bool" where
  "pops_guarded k [] = True"
| "pops_guarded k (c # cs) =
     (if is_push c then pops_guarded (Suc k) cs else k \<noteq> 0 \<and> pops_guarded (k - 1) cs)"

section \<open>Example states\<close>

text \<open>
  The state of a program that has created nothing yet, the state after constructing a list
  of integers at address 7, and the state after \<^verbatim>\<open>push_back(1)\<close> on it.
\<close>

definition empty_state :: "int state" where
  "empty_state = \<lparr>nodes = [], lists = (\<lambda>l. None)\<rparr>"

definition ex_nil :: "int state" where
  "ex_nil = \<lparr>nodes = [Some \<lparr>prev = None, next = Some 1, val = None\<rparr>,
                       Some \<lparr>prev = Some 0, next = None, val = None\<rparr>],
             lists = (\<lambda>l. None)(7 \<mapsto> \<lparr>head = Some 0, tail = Some 1, n = 0\<rparr>)\<rparr>"

text \<open>The state after \<^verbatim>\<open>push_back\<close> of 1, 2 and 3 on the fresh list at address 7.\<close>

definition ex_three :: "int state" where
  "ex_three = \<lparr>nodes = [Some \<lparr>prev = None, next = Some 2, val = None\<rparr>,
                         Some \<lparr>prev = Some 4, next = None, val = None\<rparr>,
                         Some \<lparr>prev = Some 0, next = Some 3, val = Some 1\<rparr>,
                         Some \<lparr>prev = Some 2, next = Some 4, val = Some 2\<rparr>,
                         Some \<lparr>prev = Some 3, next = Some 1, val = Some 3\<rparr>],
               lists = (\<lambda>l. None)(7 \<mapsto> \<lparr>head = Some 0, tail = Some 1, n = 3\<rparr>)\<rparr>"

text \<open>The state after \<^verbatim>\<open>push_back\<close> of 1, 1, 2, 2, 2, 3 and 1 on the fresh list at address 7.\<close>

definition ex_runs :: "int state" where
  "ex_runs = \<lparr>nodes = [Some \<lparr>prev = None, next = Some 2, val = None\<rparr>,
                        Some \<lparr>prev = Some 8, next = None, val = None\<rparr>,
                        Some \<lparr>prev = Some 0, next = Some 3, val = Some 1\<rparr>,
                        Some \<lparr>prev = Some 2, next = Some 4, val = Some 1\<rparr>,
                        Some \<lparr>prev = Some 3, next = Some 5, val = Some 2\<rparr>,
                        Some \<lparr>prev = Some 4, next = Some 6, val = Some 2\<rparr>,
                        Some \<lparr>prev = Some 5, next = Some 7, val = Some 2\<rparr>,
                        Some \<lparr>prev = Some 6, next = Some 8, val = Some 3\<rparr>,
                        Some \<lparr>prev = Some 7, next = Some 1, val = Some 1\<rparr>],
              lists = (\<lambda>l. None)(7 \<mapsto> \<lparr>head = Some 0, tail = Some 1, n = 7\<rparr>)\<rparr>"

text \<open>
  Two lists: after the constructor at 7, the constructor at 8, \<^verbatim>\<open>push_back\<close> of 1, 3 and 5 on
  the first and of 2, 3 and 4 on the second.
\<close>

definition ex_ab :: "int state" where
  "ex_ab = \<lparr>nodes = [Some \<lparr>prev = None, next = Some 4, val = None\<rparr>,
                      Some \<lparr>prev = Some 6, next = None, val = None\<rparr>,
                      Some \<lparr>prev = None, next = Some 7, val = None\<rparr>,
                      Some \<lparr>prev = Some 9, next = None, val = None\<rparr>,
                      Some \<lparr>prev = Some 0, next = Some 5, val = Some 1\<rparr>,
                      Some \<lparr>prev = Some 4, next = Some 6, val = Some 3\<rparr>,
                      Some \<lparr>prev = Some 5, next = Some 1, val = Some 5\<rparr>,
                      Some \<lparr>prev = Some 2, next = Some 8, val = Some 2\<rparr>,
                      Some \<lparr>prev = Some 7, next = Some 9, val = Some 3\<rparr>,
                      Some \<lparr>prev = Some 8, next = Some 3, val = Some 4\<rparr>],
            lists = (\<lambda>l. None)(7 \<mapsto> \<lparr>head = Some 0, tail = Some 1, n = 3\<rparr>,
                                  8 \<mapsto> \<lparr>head = Some 2, tail = Some 3, n = 3\<rparr>)\<rparr>"

definition ex_one :: "int state" where
  "ex_one = \<lparr>nodes = [Some \<lparr>prev = None, next = Some 2, val = None\<rparr>,
                       Some \<lparr>prev = Some 2, next = None, val = None\<rparr>,
                       Some \<lparr>prev = Some 0, next = Some 1, val = Some 1\<rparr>],
             lists = (\<lambda>l. None)(7 \<mapsto> \<lparr>head = Some 0, tail = Some 1, n = 1\<rparr>)\<rparr>"

section \<open>Properties of the store and of the link primitives\<close>

lemma hdp_append [simp]: "hdp q (xs @ ys) = hdp (hdp q ys) xs"
  by (cases xs) auto

lemma succs_append [simp]: "succs q (xs @ ys) = succs (hdp q ys) xs @ succs q ys"
  by (induction xs) auto

lemma length_succs [simp]: "length (succs q xs) = length xs"
  by (induction xs) auto

lemma look_Some_less: "look h a = Some nd \<Longrightarrow> a < length h"
  by (auto simp: look_def split: if_splits)

lemma look_update: "look (h[a := x]) b = (if b = a \<and> a < length h then x else look h b)"
  by (auto simp: look_def)

lemma look_snoc: "look (h @ [x]) b = (if b = length h then x else look h b)"
  by (auto simp: look_def nth_append)

lemma look_ge: "length h \<le> a \<Longrightarrow> look h a = None"
  by (simp add: look_def)

lemma vals_look: "vals h' = vals h \<Longrightarrow> map_option val (look h' a) = map_option val (look h a)"
proof -
  assume e: "vals h' = vals h"
  then have l: "length h' = length h" by (metis length_map vals_def)
  show ?thesis
  proof (cases "a < length h")
    case True
    then have "map (map_option val) h' ! a = map (map_option val) h ! a" using e by (simp add: vals_def)
    then show ?thesis using True l by (simp add: look_def)
  next
    case False then show ?thesis using l by (simp add: look_def)
  qed
qed

lemma vals_length: "vals h' = vals h \<Longrightarrow> length h' = length h"
  by (metis length_map vals_def)

lemma vals_vl: "vals h' = vals h \<Longrightarrow> vl h' a = vl h a"
  using vals_look[of h' h a] by (auto simp: vl_def split: option.splits)

lemma vals_live: "vals h' = vals h \<Longrightarrow> look h' a = None \<longleftrightarrow> look h a = None"
  using vals_look[of h' h a] by (auto split: option.splits)

lemma set_next_Some:
  "look h a = Some nd \<Longrightarrow> set_next h (Some a) v = Some (h[a := Some (nd\<lparr>next := v\<rparr>)])"
  by (simp add: set_next_def)

lemma set_prev_Some:
  "look h a = Some nd \<Longrightarrow> set_prev h (Some a) v = Some (h[a := Some (nd\<lparr>prev := v\<rparr>)])"
  by (simp add: set_prev_def)

lemma vals_update:
  "look h a = Some nd \<Longrightarrow> val nd' = val nd \<Longrightarrow> vals (h[a := Some nd']) = vals h"
  by (auto simp: vals_def look_def map_update list_update_same_conv split: if_splits)

text \<open>What a chain says about one of its nodes.\<close>

lemma links_mid:
  assumes "links h (xs @ b # ys)"
  shows "\<exists>nd. look h b = Some nd \<and> next nd = hdp None ys \<and> prev nd = hdp None (rev xs)"
  using assms by (auto simp: links_def nxt_def prv_def split: option.splits)

lemma links_cong:
  assumes "\<forall>a\<in>set cs. look h' a = look h a"
  shows "links h' cs = links h cs"
proof -
  have a: "map (nxt h') cs = map (nxt h) cs" and b: "map (prv h') (rev cs) = map (prv h) (rev cs)"
    using assms by (auto simp: nxt_def prv_def)
  have c: "list_all (\<lambda>a. look h' a \<noteq> None) cs = list_all (\<lambda>a. look h a \<noteq> None) cs"
    using assms by (simp add: list_all_iff)
  show ?thesis unfolding links_def a b c ..
qed

lemma insert_node_links:
  assumes L: "links h (xs @ b # ys)" and ne: "xs \<noteq> []"
    and c: "look h c = Some cn" and fresh: "c \<notin> set (xs @ b # ys)"
  shows "\<exists>h'. insert_node h (Some b) (Some c) = Some h' \<and> links h' (xs @ c # b # ys) \<and>
           vals h' = vals h \<and> (\<forall>a. a \<notin> set (xs @ b # ys) \<longrightarrow> a \<noteq> c \<longrightarrow> look h' a = look h a)"
proof -
  obtain us u where xs: "xs = us @ [u]" using ne by (meson rev_exhaust)
  from links_mid[OF L] obtain bn where bn: "look h b = Some bn" "next bn = hdp None ys" "prev bn = Some u"
    by (auto simp: xs)
  from L have "links h (us @ u # (b # ys))" by (simp add: xs)
  from links_mid[OF this] obtain un where un: "look h u = Some un" "next un = Some b" "prev un = hdp None (rev us)"
    by auto
  have d: "distinct (us @ u # b # ys)" "u \<noteq> b" "c \<noteq> b" "c \<noteq> u" "c \<notin> set us" "c \<notin> set ys" 
     "u \<notin> set us" "u \<notin> set ys" "b \<notin> set us" "b \<notin> set ys"
    using L fresh by (auto simp: links_def xs)
  let ?h' = "h[c := Some (cn\<lparr>next := Some b, prev := Some u\<rparr>), u := Some (un\<lparr>next := Some c\<rparr>), b := Some (bn\<lparr>prev := Some c\<rparr>)]"
  have ins: "insert_node h (Some b) (Some c) = Some ?h'"
    using c bn un d look_Some_less[OF c] look_Some_less[OF bn(1)] look_Some_less[OF un(1)]
    by (simp add: insert_node_def set_next_Some set_prev_Some deref_def look_update)
  have lk: "\<And>a. look ?h' a = (if a = b then Some (bn\<lparr>prev := Some c\<rparr>) else if a = u then Some (un\<lparr>next := Some c\<rparr>)
       else if a = c then Some (cn\<lparr>next := Some b, prev := Some u\<rparr>) else look h a)"
    using look_Some_less[OF c] look_Some_less[OF bn(1)] look_Some_less[OF un(1)]
    by (simp add: look_update)
  have nx: "nxt ?h' = (nxt h)(c := Some b, u := Some c)"
    using bn un c d by (auto simp: nxt_def lk fun_eq_iff)
  have pv: "prv ?h' = (prv h)(c := Some u, b := Some c)"
    using bn un c d by (auto simp: prv_def lk fun_eq_iff)
  have "links ?h' (xs @ c # b # ys)"
    using L d bn un unfolding links_def xs nx pv
    by (auto simp: list_all_iff lk nxt_def prv_def)
  moreover have "vals ?h' = vals h"
    using c bn un d by (simp add: vals_update look_update)
  moreover have "\<forall>a. a \<notin> set (xs @ b # ys) \<longrightarrow> a \<noteq> c \<longrightarrow> look ?h' a = look h a"
    by (auto simp: lk xs)
  ultimately show ?thesis using ins by blast
qed

lemma erase_node_links:
  assumes L: "links h (xs @ b # ys)" and ne: "xs \<noteq> []" "ys \<noteq> []"
  shows "\<exists>h'. erase_node h (Some b) = Some h' \<and> links h' (xs @ ys) \<and>
           vals h' = vals h \<and> look h' b \<noteq> None \<and>
           (\<forall>a. a \<notin> set (xs @ b # ys) \<longrightarrow> look h' a = look h a)"
proof -
  obtain us u where xs: "xs = us @ [u]" using ne by (meson rev_exhaust)
  obtain w ws where ys: "ys = w # ws" using ne by (cases ys) auto
  from links_mid[OF L] obtain bn where bn: "look h b = Some bn" "next bn = Some w" "prev bn = Some u"
    by (auto simp: xs ys)
  from L have "links h (us @ u # (b # ys))" by (simp add: xs)
  from links_mid[OF this] obtain un where un: "look h u = Some un" "next un = Some b" "prev un = hdp None (rev us)"
    by auto
  from L have "links h ((xs @ [b]) @ w # ws)" by (simp add: ys)
  from links_mid[OF this] obtain wn where wn: "look h w = Some wn" "next wn = hdp None ws" "prev wn = Some b"
    by auto
  have d: "distinct (us @ u # b # w # ws)" "u \<noteq> b" "w \<noteq> b" "w \<noteq> u"
     "u \<notin> set us" "u \<notin> set ws" "b \<notin> set us" "b \<notin> set ws" "w \<notin> set us" "w \<notin> set ws"
    using L by (auto simp: links_def xs ys)
  let ?h' = "h[u := Some (un\<lparr>next := Some w\<rparr>), w := Some (wn\<lparr>prev := Some u\<rparr>),
               b := Some (bn\<lparr>next := None, prev := None\<rparr>)]"
  have er: "erase_node h (Some b) = Some ?h'"
    using bn un wn d look_Some_less[OF wn(1)] look_Some_less[OF bn(1)] look_Some_less[OF un(1)]
    by (simp add: erase_node_def set_next_Some set_prev_Some deref_def look_update)
  have lk: "\<And>a. look ?h' a = (if a = b then Some (bn\<lparr>next := None, prev := None\<rparr>)
       else if a = w then Some (wn\<lparr>prev := Some u\<rparr>)
       else if a = u then Some (un\<lparr>next := Some w\<rparr>) else look h a)"
    using look_Some_less[OF wn(1)] look_Some_less[OF bn(1)] look_Some_less[OF un(1)]
    by (simp add: look_update)
  have nx: "nxt ?h' = (nxt h)(u := Some w, b := None)"
    using bn un wn d by (auto simp: nxt_def lk fun_eq_iff)
  have pv: "prv ?h' = (prv h)(w := Some u, b := None)"
    using bn un wn d by (auto simp: prv_def lk fun_eq_iff)
  have "links ?h' (xs @ ys)"
    using L d bn un wn unfolding links_def xs ys nx pv
    by (auto simp: list_all_iff lk nxt_def prv_def)
  moreover have "vals ?h' = vals h"
    using wn bn un d by (simp add: vals_update look_update)
  moreover have "\<forall>a. a \<notin> set (xs @ b # ys) \<longrightarrow> look ?h' a = look h a"
    by (auto simp: lk xs ys)
  moreover have "look ?h' b \<noteq> None" by (simp add: lk)
  ultimately show ?thesis using er by blast
qed


section \<open>Well-formed lists under construction, insertion and removal\<close>

lemma vl_cong: "look h' a = look h a \<Longrightarrow> vl h' a = vl h a"
  by (simp add: vl_def)

lemma links_live: "links h cs \<Longrightarrow> a \<in> set cs \<Longrightarrow> a < length h"
  by (auto simp: links_def list_all_iff dest: look_Some_less)

lemma links_distinct: "links h cs \<Longrightarrow> distinct cs"
  by (simp add: links_def)

lemma erase_delete_links:
  assumes L: "links h (xs @ b # ys)" and ne: "xs \<noteq> []" "ys \<noteq> []"
  shows "\<exists>h'. erase_node h (Some b) \<bind> (\<lambda>h1. delete_ptr h1 (Some b)) = Some h' \<and>
           links h' (xs @ ys) \<and> look h' b = None \<and> length h' = length h \<and>
           (\<forall>a. a \<noteq> b \<longrightarrow> vl h' a = vl h a) \<and>
           (\<forall>a. a \<notin> set (xs @ b # ys) \<longrightarrow> look h' a = look h a)"
proof -
  from erase_node_links[OF L ne] obtain h1 where h1:
    "erase_node h (Some b) = Some h1" "links h1 (xs @ ys)" "vals h1 = vals h" "look h1 b \<noteq> None"
    "\<forall>a. a \<notin> set (xs @ b # ys) \<longrightarrow> look h1 a = look h a" by blast
  let ?h' = "delete_node h1 b"
  have b: "b \<notin> set (xs @ ys)" using L by (auto simp: links_def)
  have del: "delete_ptr h1 (Some b) = Some ?h'" using h1(4) by (auto simp: delete_ptr_def)
  have lk: "\<And>a. look ?h' a = (if a = b then None else look h1 a)"
    using h1(4) by (auto simp: delete_node_def look_update look_def)
  have "links ?h' (xs @ ys)"
    using links_cong[of "xs @ ys" ?h' h1] b h1(2) by (auto simp: lk)
  moreover have "\<forall>a. a \<noteq> b \<longrightarrow> vl ?h' a = vl h a"
    using vals_vl[OF h1(3)] by (simp add: vl_def lk)
  moreover have "length ?h' = length h" using vals_length[OF h1(3)] by (simp add: delete_node_def)
  moreover have "\<forall>a. a \<notin> set (xs @ b # ys) \<longrightarrow> look ?h' a = look h a"
    using h1(5) by (simp add: lk)
  ultimately show ?thesis using h1(1) del by (auto simp: lk)
qed

lemma links_snoc:
  assumes "links h cs"
  shows "links (h @ [x]) cs"
proof -
  have "\<forall>a\<in>set cs. look (h @ [x]) a = look h a"
    using links_live[OF assms] by (auto simp: look_snoc)
  from links_cong[OF this] assms show ?thesis by simp
qed

lemma is_list_head_node:
  assumes "is_list s l hn as tn xs"
  shows "\<exists>nd. look (nodes s) hn = Some nd \<and> prev nd = None \<and> next nd = hdp (Some tn) as \<and> val nd = None"
proof -
  from assms have L: "links (nodes s) ([] @ hn # (as @ [tn]))" and v: "vl (nodes s) hn = None"
    by (simp_all add: is_list_def)
  from links_mid[OF L] v show ?thesis by (auto simp: vl_def)
qed

lemma is_list_tail_node:
  assumes "is_list s l hn as tn xs"
  shows "\<exists>nd. look (nodes s) tn = Some nd \<and> next nd = None \<and> prev nd = hdp (Some hn) (rev as) \<and> val nd = None"
proof -
  from assms have L: "links (nodes s) ((hn # as) @ tn # [])" and v: "vl (nodes s) tn = None"
    by (simp_all add: is_list_def)
  from links_mid[OF L] v show ?thesis by (auto simp: vl_def)
qed

lemma is_list_data_node:
  assumes "is_list s l hn (as1 @ a # as2) tn xs"
  shows "\<exists>nd. look (nodes s) a = Some nd \<and> next nd = hdp (Some tn) as2 \<and>
           prev nd = hdp (Some hn) (rev as1) \<and> val nd = Some (xs ! length as1) \<and> length as1 < length xs"
proof -
  from assms have L: "links (nodes s) ((hn # as1) @ a # (as2 @ [tn]))"
    and v: "map (vl (nodes s)) (as1 @ a # as2) = map Some xs"
    by (simp_all add: is_list_def)
  from v have len: "length xs = length (as1 @ a # as2)" by (metis length_map)
  from v have "map (vl (nodes s)) (as1 @ a # as2) ! length as1 = map Some xs ! length as1" by simp
  then have "vl (nodes s) a = Some (xs ! length as1)" using len by (simp add: nth_append)
  with links_mid[OF L] len show ?thesis by (auto simp: vl_def)
qed

lemma is_list_frame:
  assumes "is_list s l hn as tn xs" "lists s' l = lists s l"
    "\<forall>a\<in>set (hn # as @ [tn]). look (nodes s') a = look (nodes s) a"
  shows "is_list s' l hn as tn xs"
proof -
  have a: "links (nodes s') (hn # as @ [tn]) = links (nodes s) (hn # as @ [tn])"
    by (rule links_cong) (use assms(3) in auto)
  have b: "map (vl (nodes s')) as = map (vl (nodes s)) as"
    using assms(3) by (auto simp: vl_def)
  have c: "vl (nodes s') hn = vl (nodes s) hn" "vl (nodes s') tn = vl (nodes s) tn"
    using assms(3) by (auto simp: vl_def)
  show ?thesis using assms(1) unfolding is_list_def a b c assms(2) .
qed

lemma list_ctor_is_list:
  "list_ctor s l = Return (s\<lparr>nodes := nodes s @ [Some \<lparr>prev = None, next = Some (Suc (length (nodes s))), val = None\<rparr>,
                                         Some \<lparr>prev = Some (length (nodes s)), next = None, val = None\<rparr>],
       lists := (lists s)(l \<mapsto> \<lparr>head = Some (length (nodes s)), tail = Some (Suc (length (nodes s))), n = 0\<rparr>)\<rparr>) ()"
  by (simp add: list_ctor_def new_node_def set_next_def set_prev_def look_def nth_append list_update_append)

lemma list_ctor_ok:
  "\<exists>s'. list_ctor s l = Return s' () \<and> is_list s' l (length (nodes s)) [] (Suc (length (nodes s))) []"
  unfolding list_ctor_is_list
  by (simp add: is_list_def links_def nxt_def prv_def vl_def look_def nth_append)

lemma is_list_push_back:
  assumes I: "is_list s l hn as tn xs"
  shows "\<exists>s'. list_push_back s l v = Return s' () \<and>
           is_list s' l hn (as @ [length (nodes s)]) tn (xs @ [v]) \<and>
           length (nodes s') = Suc (length (nodes s)) \<and>
           (\<forall>l'. l' \<noteq> l \<longrightarrow> lists s' l' = lists s l') \<and>
           (\<forall>a. a \<notin> set (hn # as @ [tn]) \<longrightarrow> a < length (nodes s) \<longrightarrow> look (nodes s') a = look (nodes s) a)"
proof -
  let ?h = "nodes s" and ?c = "length (nodes s)"
  let ?h1 = "?h @ [Some \<lparr>prev = None, next = None, val = Some v\<rparr>]"
  from I have L: "links ?h (hn # as @ [tn])" and Ls: "lists s l = Some \<lparr>head = Some hn, tail = Some tn, n = length as\<rparr>"
    and V: "vl ?h hn = None" "vl ?h tn = None" "map (vl ?h) as = map Some xs"
    by (simp_all add: is_list_def)
  have lt: "\<And>a. a \<in> set (hn # as @ [tn]) \<Longrightarrow> a < ?c" using links_live[OF L] by blast
  have L1: "links ?h1 ((hn # as) @ tn # [])"
    using links_snoc[OF L] by simp
  have c1: "look ?h1 ?c = Some \<lparr>prev = None, next = None, val = Some v\<rparr>" by (simp add: look_snoc)
  have fr: "?c \<notin> set ((hn # as) @ tn # [])" using lt by auto
  from insert_node_links[OF L1 _ c1 fr] obtain h' where h':
    "insert_node ?h1 (Some tn) (Some ?c) = Some h'" "links h' ((hn # as) @ ?c # tn # [])"
    "vals h' = vals ?h1" "\<forall>a. a \<notin> set ((hn # as) @ tn # []) \<longrightarrow> a \<noteq> ?c \<longrightarrow> look h' a = look ?h1 a"
    by auto
  let ?s' = "s\<lparr>nodes := h', lists := (lists s)(l \<mapsto> \<lparr>head = Some hn, tail = Some tn, n = length as\<rparr>\<lparr>n := length as + 1\<rparr>)\<rparr>"
  have r: "list_push_back s l v = Return ?s' ()"
    using Ls h'(1) by (simp add: list_push_back_def new_node_def)
  have vv: "\<And>a. vl h' a = vl ?h1 a" using vals_vl[OF h'(3)] by simp
  have v1: "\<And>a. a < ?c \<Longrightarrow> vl ?h1 a = vl ?h a" by (simp add: vl_def look_snoc)
  have "map (vl h') as = map (vl ?h) as" using lt by (simp add: vv v1)
  moreover have "vl h' ?c = Some v" unfolding vv by (simp add: vl_def look_snoc)
  moreover have "vl h' hn = None" "vl h' tn = None" using V lt by (simp_all add: vv v1)
  ultimately have "is_list ?s' l hn (as @ [?c]) tn (xs @ [v])"
    using h'(2) V by (simp add: is_list_def)
  moreover have "length h' = Suc ?c" using vals_length[OF h'(3)] by simp
  moreover have "\<forall>a. a \<notin> set (hn # as @ [tn]) \<longrightarrow> a < ?c \<longrightarrow> look h' a = look ?h a"
    using h'(4) by (auto simp: look_snoc)
  ultimately show ?thesis using r by auto
qed

lemma size_dec_Suc [simp]: "size_dec (Suc k) = k"
  by (simp add: size_dec_def)

lemma unlink_delete_is_list:
  assumes I: "is_list s l hn (as1 @ a # as2) tn xs"
  shows "\<exists>h'. erase_node (nodes s) (Some a) \<bind> (\<lambda>h1. delete_ptr h1 (Some a)) = Some h' \<and>
           is_list (s\<lparr>nodes := h',
                      lists := (lists s)(l \<mapsto> \<lparr>head = Some hn, tail = Some tn, n = length (as1 @ as2)\<rparr>)\<rparr>)
                   l hn (as1 @ as2) tn (take (length as1) xs @ drop (Suc (length as1)) xs) \<and>
           look h' a = None \<and> length h' = length (nodes s) \<and>
           (\<forall>b. b \<notin> set (hn # as1 @ a # as2 @ [tn]) \<longrightarrow> look h' b = look (nodes s) b)"
proof -
  let ?h = "nodes s"
  from I have L: "links ?h ((hn # as1) @ a # (as2 @ [tn]))"
    and V: "vl ?h hn = None" "vl ?h tn = None" "map (vl ?h) (as1 @ a # as2) = map Some xs"
    by (simp_all add: is_list_def)
  from erase_delete_links[OF L] obtain h' where h':
    "erase_node ?h (Some a) \<bind> (\<lambda>h1. delete_ptr h1 (Some a)) = Some h'"
    "links h' ((hn # as1) @ (as2 @ [tn]))" "look h' a = None" "length h' = length ?h"
    "\<forall>b. b \<noteq> a \<longrightarrow> vl h' b = vl ?h b"
    "\<forall>b. b \<notin> set ((hn # as1) @ a # (as2 @ [tn])) \<longrightarrow> look h' b = look ?h b"
    by auto
  have d: "a \<noteq> hn" "a \<noteq> tn" "a \<notin> set as1" "a \<notin> set as2"
    using links_distinct[OF L] by auto
  have len: "length xs = length as1 + Suc (length as2)"
    using V(3) by (metis length_map length_append length_Cons)
  have m1: "map (vl ?h) as1 = map Some (take (length as1) xs)"
    using arg_cong[OF V(3), of "take (length as1)"] by (simp add: take_map)
  have m2: "map (vl ?h) as2 = map Some (drop (Suc (length as1)) xs)"
    using arg_cong[OF V(3), of "drop (Suc (length as1))"] by (simp add: drop_map)
  have e1: "map (vl h') as1 = map (vl ?h) as1" "map (vl h') as2 = map (vl ?h) as2"
    using h'(5) d by auto
  have "map (vl h') (as1 @ as2) = map Some (take (length as1) xs @ drop (Suc (length as1)) xs)"
    unfolding map_append e1 m1 m2 ..
  moreover have "vl h' hn = None" "vl h' tn = None" using h'(5) d V by auto
  ultimately have "is_list (s\<lparr>nodes := h',
                      lists := (lists s)(l \<mapsto> \<lparr>head = Some hn, tail = Some tn, n = length (as1 @ as2)\<rparr>)\<rparr>)
                   l hn (as1 @ as2) tn (take (length as1) xs @ drop (Suc (length as1)) xs)"
    using h'(2) by (simp add: is_list_def)
  then show ?thesis using h' by auto
qed

lemma is_list_erase:
  assumes I: "is_list s l hn (as1 @ a # as2) tn xs"
  shows "\<exists>s'. list_erase s l \<lparr>p = Some a, owner = Some l\<rparr>
                 = Return s' \<lparr>p = hdp (Some tn) as2, owner = Some l\<rparr> \<and>
           is_list s' l hn (as1 @ as2) tn (take (length as1) xs @ drop (Suc (length as1)) xs) \<and>
           look (nodes s') a = None \<and> length (nodes s') = length (nodes s) \<and>
           (\<forall>l'. l' \<noteq> l \<longrightarrow> lists s' l' = lists s l') \<and>
           (\<forall>b. b \<notin> set (hn # as1 @ a # as2 @ [tn]) \<longrightarrow> look (nodes s') b = look (nodes s) b)"
proof -
  from I have Ls: "lists s l = Some \<lparr>head = Some hn, tail = Some tn, n = length (as1 @ a # as2)\<rparr>"
    and L: "links (nodes s) (hn # (as1 @ a # as2) @ [tn])"
    by (simp_all add: is_list_def)
  have d: "a \<noteq> tn" using links_distinct[OF L] by auto
  from is_list_data_node[OF I] obtain nd where nd: "look (nodes s) a = Some nd" "next nd = hdp (Some tn) as2"
    by blast
  from unlink_delete_is_list[OF I] obtain h' where h':
    "erase_node (nodes s) (Some a) \<bind> (\<lambda>h1. delete_ptr h1 (Some a)) = Some h'"
    "is_list (s\<lparr>nodes := h',
                      lists := (lists s)(l \<mapsto> \<lparr>head = Some hn, tail = Some tn, n = length (as1 @ as2)\<rparr>)\<rparr>)
                   l hn (as1 @ as2) tn (take (length as1) xs @ drop (Suc (length as1)) xs)"
    "look h' a = None" "length h' = length (nodes s)"
    "\<forall>b. b \<notin> set (hn # as1 @ a # as2 @ [tn]) \<longrightarrow> look h' b = look (nodes s) b"
    by blast
  have "list_erase s l \<lparr>p = Some a, owner = Some l\<rparr>
         = Return (s\<lparr>nodes := h',
                      lists := (lists s)(l \<mapsto> \<lparr>head = Some hn, tail = Some tn, n = length (as1 @ as2)\<rparr>)\<rparr>)
             \<lparr>p = hdp (Some tn) as2, owner = Some l\<rparr>"
    using Ls d nd h'(1) by (simp add: list_erase_def deref_def)
  then show ?thesis using h' by auto
qed

lemma is_list_pop_back:
  assumes I: "is_list s l hn (as @ [a]) tn xs"
  shows "\<exists>s'. list_pop_back s l = Return s' () \<and> is_list s' l hn as tn (butlast xs) \<and>
           look (nodes s') a = None \<and> length (nodes s') = length (nodes s) \<and>
           (\<forall>l'. l' \<noteq> l \<longrightarrow> lists s' l' = lists s l') \<and>
           (\<forall>b. b \<notin> set (hn # as @ a # [tn]) \<longrightarrow> look (nodes s') b = look (nodes s) b)"
proof -
  from I have Ls: "lists s l = Some \<lparr>head = Some hn, tail = Some tn, n = length (as @ [a])\<rparr>"
    and V: "map (vl (nodes s)) (as @ [a]) = map Some xs"
    by (simp_all add: is_list_def)
  have len: "length xs = Suc (length as)" using V by (metis length_map length_append_singleton)
  from is_list_tail_node[OF I] obtain nd where nd: "look (nodes s) tn = Some nd" "prev nd = Some a"
    by auto
  from unlink_delete_is_list[of s l hn as a "[]" tn xs] I obtain h' where h':
    "erase_node (nodes s) (Some a) \<bind> (\<lambda>h1. delete_ptr h1 (Some a)) = Some h'"
    "is_list (s\<lparr>nodes := h',
                      lists := (lists s)(l \<mapsto> \<lparr>head = Some hn, tail = Some tn, n = length as\<rparr>)\<rparr>)
                   l hn as tn (take (length as) xs)"
    "look h' a = None" "length h' = length (nodes s)"
    "\<forall>b. b \<notin> set (hn # as @ a # [tn]) \<longrightarrow> look h' b = look (nodes s) b"
    using len by auto
  have bl: "take (length as) xs = butlast xs" using len by (simp add: butlast_conv_take)
  have "list_pop_back s l
         = Return (s\<lparr>nodes := h',
                      lists := (lists s)(l \<mapsto> \<lparr>head = Some hn, tail = Some tn, n = length as\<rparr>)\<rparr>) ()"
    using Ls nd h'(1) by (simp add: list_pop_back_def deref_def)
  then show ?thesis using h' bl by auto
qed

lemma is_list_pop_front:
  assumes I: "is_list s l hn (a # as) tn xs"
  shows "\<exists>s'. list_pop_front s l = Return s' () \<and> is_list s' l hn as tn (tl xs) \<and>
           look (nodes s') a = None \<and> length (nodes s') = length (nodes s) \<and>
           (\<forall>l'. l' \<noteq> l \<longrightarrow> lists s' l' = lists s l') \<and>
           (\<forall>b. b \<notin> set (hn # a # as @ [tn]) \<longrightarrow> look (nodes s') b = look (nodes s) b)"
proof -
  from I have Ls: "lists s l = Some \<lparr>head = Some hn, tail = Some tn, n = length (a # as)\<rparr>"
    by (simp_all add: is_list_def)
  from is_list_head_node[OF I] obtain nd where nd: "look (nodes s) hn = Some nd" "next nd = Some a"
    by auto
  from unlink_delete_is_list[of s l hn "[]" a as tn xs] I obtain h' where h':
    "erase_node (nodes s) (Some a) \<bind> (\<lambda>h1. delete_ptr h1 (Some a)) = Some h'"
    "is_list (s\<lparr>nodes := h',
                      lists := (lists s)(l \<mapsto> \<lparr>head = Some hn, tail = Some tn, n = length as\<rparr>)\<rparr>)
                   l hn as tn (drop (Suc 0) xs)"
    "look h' a = None" "length h' = length (nodes s)"
    "\<forall>b. b \<notin> set (hn # a # as @ [tn]) \<longrightarrow> look h' b = look (nodes s) b"
    by auto
  have "list_pop_front s l
         = Return (s\<lparr>nodes := h',
                      lists := (lists s)(l \<mapsto> \<lparr>head = Some hn, tail = Some tn, n = length as\<rparr>)\<rparr>) ()"
    using Ls nd h'(1) by (simp add: list_pop_front_def deref_def)
  then show ?thesis using h' by (auto simp: drop_Suc)
qed

lemma is_list_push_front:
  assumes I: "is_list s l hn as tn xs"
  shows "\<exists>s'. list_push_front s l v = Return s' () \<and>
           is_list s' l hn (length (nodes s) # as) tn (v # xs) \<and>
           length (nodes s') = Suc (length (nodes s)) \<and>
           (\<forall>l'. l' \<noteq> l \<longrightarrow> lists s' l' = lists s l') \<and>
           (\<forall>a. a \<notin> set (hn # as @ [tn]) \<longrightarrow> a < length (nodes s) \<longrightarrow> look (nodes s') a = look (nodes s) a)"
proof -
  let ?h = "nodes s" and ?c = "length (nodes s)"
  let ?h1 = "?h @ [Some \<lparr>prev = None, next = None, val = Some v\<rparr>]"
  from I have L: "links ?h (hn # as @ [tn])" and Ls: "lists s l = Some \<lparr>head = Some hn, tail = Some tn, n = length as\<rparr>"
    and V: "vl ?h hn = None" "vl ?h tn = None" "map (vl ?h) as = map Some xs"
    by (simp_all add: is_list_def)
  have lt: "\<And>a. a \<in> set (hn # as @ [tn]) \<Longrightarrow> a < ?c" using links_live[OF L] by blast
  obtain b ys where bys: "as @ [tn] = b # ys" by (cases as) auto
  then have hb: "hdp (Some tn) as = Some b" by (cases as) auto
  from is_list_head_node[OF I] obtain nd where nd: "look ?h hn = Some nd" "next nd = Some b"
    using hb by auto
  have "hn < ?c" using lt by simp
  then have nd1: "look ?h1 hn = Some nd" using nd by (simp add: look_snoc)
  have L1: "links ?h1 ([hn] @ b # ys)"
    using links_snoc[OF L] bys by simp
  have c1: "look ?h1 ?c = Some \<lparr>prev = None, next = None, val = Some v\<rparr>" by (simp add: look_snoc)
  have fr: "?c \<notin> set ([hn] @ b # ys)" using lt bys[symmetric] by auto
  from insert_node_links[OF L1 _ c1 fr] obtain h' where h':
    "insert_node ?h1 (Some b) (Some ?c) = Some h'" "links h' ([hn] @ ?c # b # ys)"
    "vals h' = vals ?h1" "\<forall>a. a \<notin> set ([hn] @ b # ys) \<longrightarrow> a \<noteq> ?c \<longrightarrow> look h' a = look ?h1 a"
    by auto
  let ?s' = "s\<lparr>nodes := h', lists := (lists s)(l \<mapsto> \<lparr>head = Some hn, tail = Some tn, n = length as + 1\<rparr>)\<rparr>"
  have r: "list_push_front s l v = Return ?s' ()"
    using Ls h'(1) nd1 nd(2) by (simp add: list_push_front_def new_node_def deref_def)
  have vv: "\<And>a. vl h' a = vl ?h1 a" using vals_vl[OF h'(3)] by simp
  have v1: "\<And>a. a < ?c \<Longrightarrow> vl ?h1 a = vl ?h a" by (simp add: vl_def look_snoc)
  have "map (vl h') as = map (vl ?h) as" using lt by (simp add: vv v1)
  moreover have "vl h' ?c = Some v" unfolding vv by (simp add: vl_def look_snoc)
  moreover have "vl h' hn = None" "vl h' tn = None" using V lt by (simp_all add: vv v1)
  moreover have "links h' (hn # (?c # as) @ [tn])" using h'(2) bys by simp
  ultimately have "is_list ?s' l hn (?c # as) tn (v # xs)"
    using V by (simp add: is_list_def)
  moreover have "length h' = Suc ?c" using vals_length[OF h'(3)] by simp
  moreover have "\<forall>a. a \<notin> set (hn # as @ [tn]) \<longrightarrow> a < ?c \<longrightarrow> look h' a = look ?h a"
    using h'(4) bys[symmetric] by (auto simp: look_snoc)
  ultimately show ?thesis using r by auto
qed

lemma is_list_lengths: "is_list s l hn as tn xs \<Longrightarrow> length as = length xs"
  unfolding is_list_def by (metis length_map)

lemma is_list_size: "is_list s l hn as tn xs \<Longrightarrow> list_size s l = Return s (length as)"
  by (simp add: is_list_def list_size_def)

lemma is_list_empty: "is_list s l hn as tn xs \<Longrightarrow> list_empty s l = Return s (length as = 0)"
  by (simp add: is_list_def list_empty_def)

lemma apply_op_is_list:
  assumes "is_list s l hn as tn xs" "is_push c \<or> as \<noteq> []"
  shows "\<exists>s' as' xs'. apply_op s l c = Return s' () \<and> is_list s' l hn as' tn xs' \<and>
           length as' = (if is_push c then Suc (length as) else length as - 1)"
proof (cases c)
  case (Push_back v)
  then show ?thesis using is_list_push_back[OF assms(1), of v] by force
next
  case (Push_front v)
  then show ?thesis using is_list_push_front[OF assms(1), of v] by force
next
  case Pop_back
  with assms(2) obtain bs b where "as = bs @ [b]" by (metis is_push.simps(3) rev_exhaust)
  then show ?thesis using is_list_pop_back[of s l hn bs b tn xs] assms(1) Pop_back by force
next
  case Pop_front
  with assms(2) obtain b bs where "as = b # bs" by (cases as) auto
  then show ?thesis using is_list_pop_front[of s l hn b bs tn xs] assms(1) Pop_front by force
qed

lemma run_ops_is_list:
  "is_list s l hn as tn xs \<Longrightarrow> pops_guarded (length as) cs \<Longrightarrow>
   \<exists>s' as' xs'. run_ops s l cs = Return s' () \<and> is_list s' l hn as' tn xs' \<and>
     length as' + pops cs = length as + pushes cs"
proof (induction cs arbitrary: s as xs)
  case Nil
  then show ?case by (auto simp: pops_def pushes_def)
next
  case (Cons c cs)
  from Cons.prems(2) have g: "is_push c \<or> as \<noteq> []" by (auto split: if_splits)
  from apply_op_is_list[OF Cons.prems(1) g] obtain s1 as1 xs1 where s1:
    "apply_op s l c = Return s1 ()" "is_list s1 l hn as1 tn xs1"
    "length as1 = (if is_push c then Suc (length as) else length as - 1)" by blast
  have "pops_guarded (length as1) cs" using Cons.prems(2) s1(3) by (auto split: if_splits)
  from Cons.IH[OF s1(2) this] obtain s' as' xs' where s':
    "run_ops s1 l cs = Return s' ()" "is_list s' l hn as' tn xs'"
    "length as' + pops cs = length as1 + pushes cs" by blast
  have "length as' + pops (c # cs) = length as + pushes (c # cs)"
    using s'(3) s1(3) g by (auto simp: pops_def pushes_def split: if_splits)
  then show ?case using s1(1) s'(1,2) by auto
qed

section \<open>The loop of reverse\<close>

lemma heap_ext:
  assumes "length h' = length h" "\<And>a. look h' a = look h a"
  shows "h' = h"
proof (rule nth_equalityI)
  show "length h' = length h" by fact
  fix i assume "i < length h'"
  then show "h' ! i = h ! i" using assms(1) assms(2)[of i] by (simp add: look_def)
qed

lemma swap_links_twice [simp]: "swap_links (swap_links nd) = nd"
  by (simp add: swap_links_def)

lemma reverse_loop_chain:
  "distinct cs \<Longrightarrow> list_all (\<lambda>a. look (nodes s) a \<noteq> None) cs \<Longrightarrow>
   map (nxt (nodes s)) cs = succs None cs \<Longrightarrow>
   \<exists>h'. reverse_loop s (hdp None cs) = Some (Return (s\<lparr>nodes := h'\<rparr>) ()) \<and>
     length h' = length (nodes s) \<and>
     (\<forall>a. look h' a = (if a \<in> set cs then map_option swap_links (look (nodes s) a)
                        else look (nodes s) a))"
proof (induction cs arbitrary: s)
  case Nil
  have "reverse_loop s None = Some (Return (s\<lparr>nodes := nodes s\<rparr>) ())"
    by (subst reverse_loop.simps) simp
  then show ?case by (intro exI[of _ "nodes s"]) simp
next
  case (Cons c cs)
  let ?h = "nodes s"
  from Cons.prems obtain nd where nd: "look ?h c = Some nd" "next nd = hdp None cs"
    by (auto simp: nxt_def split: option.splits)
  let ?h2 = "?h[c := Some (swap_links nd)]"
  have c: "c < length ?h" using look_Some_less[OF nd(1)] .
  have lk2: "\<And>a. look ?h2 a = (if a = c then Some (swap_links nd) else look ?h a)"
    using c by (simp add: look_update)
  have step: "reverse_loop s (Some c) = reverse_loop (s\<lparr>nodes := ?h2\<rparr>) (hdp None cs)"
    using nd c
    by (subst reverse_loop.simps)
       (simp add: deref_def set_next_def set_prev_def look_update swap_links_def)
  have p1: "distinct cs" and cn: "c \<notin> set cs" using Cons.prems(1) by auto
  have p2: "list_all (\<lambda>a. look (nodes (s\<lparr>nodes := ?h2\<rparr>)) a \<noteq> None) cs"
    using Cons.prems(2) cn by (auto simp: list_all_iff lk2)
  have e: "map (nxt ?h2) cs = map (nxt ?h) cs" using cn by (auto simp: nxt_def lk2)
  have p3: "map (nxt (nodes (s\<lparr>nodes := ?h2\<rparr>))) cs = succs None cs"
    using Cons.prems(3) by (simp add: e)
  from Cons.IH[OF p1 p2 p3] obtain h' where h':
    "reverse_loop (s\<lparr>nodes := ?h2\<rparr>) (hdp None cs) = Some (Return (s\<lparr>nodes := h'\<rparr>) ())"
    "length h' = length ?h"
    "\<forall>a. look h' a = (if a \<in> set cs then map_option swap_links (look ?h2 a) else look ?h2 a)"
    by auto
  have "\<forall>a. look h' a = (if a \<in> set (c # cs) then map_option swap_links (look ?h a) else look ?h a)"
    using h'(3) cn nd(1) by (auto simp: lk2)
  then show ?case using step h'(1,2) by auto
qed

lemma vl_swapped:
  assumes "\<forall>a. look h' a = (if a \<in> X then map_option swap_links (look h a) else look h a)"
  shows "vl h' a = vl h a" "nxt h' a = (if a \<in> X then prv h a else nxt h a)"
    "prv h' a = (if a \<in> X then nxt h a else prv h a)" "(look h' a = None) = (look h a = None)"
  using assms by (auto simp: vl_def nxt_def prv_def swap_links_def split: option.splits)

lemma vals_swapped:
  assumes "length h' = length h"
    "\<forall>a. look h' a = (if a \<in> X then map_option swap_links (look h a) else look h a)"
  shows "vals h' = vals h"
  unfolding vals_def
proof (rule nth_equalityI)
  show "length (map (map_option val) h') = length (map (map_option val) h)" using assms(1) by simp
  fix i assume "i < length (map (map_option val) h')"
  then have i: "i < length h" using assms(1) by simp
  have "map_option val (look h' i) = map_option val (look h i)"
    using assms(2) by (cases "look h i") (auto simp: swap_links_def)
  then show "map (map_option val) h' ! i = map (map_option val) h ! i"
    using i assms(1) by (simp add: look_def)
qed

lemma is_list_reverse:
  assumes I: "is_list s l hn as tn xs"
  shows "\<exists>h'. list_reverse s l
            = Some (Return (s\<lparr>nodes := h',
                  lists := (lists s)(l \<mapsto> \<lparr>head = Some tn, tail = Some hn, n = length as\<rparr>)\<rparr>) ()) \<and>
          length h' = length (nodes s) \<and>
          (\<forall>a. look h' a = (if a \<in> set (hn # as @ [tn]) then map_option swap_links (look (nodes s) a)
                        else look (nodes s) a)) \<and>
          is_list (s\<lparr>nodes := h',
                  lists := (lists s)(l \<mapsto> \<lparr>head = Some tn, tail = Some hn, n = length as\<rparr>)\<rparr>)
             l tn (rev as) hn (rev xs)"
proof -
  let ?h = "nodes s" and ?cs = "hn # as @ [tn]"
  from I have Ls: "lists s l = Some \<lparr>head = Some hn, tail = Some tn, n = length as\<rparr>"
    and L: "links ?h ?cs"
    and V: "vl ?h hn = None" "vl ?h tn = None" "map (vl ?h) as = map Some xs"
    by (simp_all add: is_list_def)
  from L have d: "distinct ?cs" and lv: "list_all (\<lambda>a. look ?h a \<noteq> None) ?cs"
    and nx: "map (nxt ?h) ?cs = succs None ?cs" and pv: "map (prv ?h) (rev ?cs) = succs None (rev ?cs)"
    unfolding links_def by blast+
  from reverse_loop_chain[OF d lv nx] obtain h' where h':
    "reverse_loop s (Some hn) = Some (Return (s\<lparr>nodes := h'\<rparr>) ())" "length h' = length ?h"
    "\<forall>a. look h' a = (if a \<in> set ?cs then map_option swap_links (look ?h a) else look ?h a)"
    by auto
  let ?s' = "s\<lparr>nodes := h', lists := (lists s)(l \<mapsto> \<lparr>head = Some tn, tail = Some hn, n = length as\<rparr>)\<rparr>"
  have r: "list_reverse s l = Some (Return ?s' ())"
    using Ls h'(1) by (simp add: list_reverse_def)
  note sw = vl_swapped[OF h'(3)]
  have n1: "map (nxt h') (rev ?cs) = map (prv ?h) (rev ?cs)" by (rule map_cong) (auto simp: sw)
  have n2: "map (prv h') ?cs = map (nxt ?h) ?cs" by (rule map_cong) (auto simp: sw)
  have lv': "list_all (\<lambda>a. look h' a \<noteq> None) (rev ?cs)"
    using lv by (simp add: list_all_iff sw)
  have "links h' (rev ?cs)"
    unfolding links_def rev_rev_ident n1 n2 pv nx using d lv' by simp
  then have L': "links h' (tn # rev as @ [hn])" by simp
  have vv: "vl h' = vl ?h" by (rule ext) (simp add: sw)
  have "map (vl h') (rev as) = map Some (rev xs)"
    using arg_cong[OF V(3), of rev] by (simp add: rev_map vv)
  then have "is_list ?s' l tn (rev as) hn (rev xs)"
    using L' V by (simp add: is_list_def vv)
  then show ?thesis using r h'(2,3) by blast
qed

lemma is_list_deref:
  assumes I: "is_list s l hn as tn xs" and a: "a \<in> set as"
  shows "\<exists>v. vl (nodes s) a = Some v \<and>
           iterator_deref s \<lparr>p = Some a, owner = Some l\<rparr> = Return \<lparr>p = Some a, owner = Some l\<rparr> v"
proof -
  from a obtain as1 as2 where as: "as = as1 @ a # as2" by (auto simp: in_set_conv_decomp)
  from I have Ls: "lists s l = Some \<lparr>head = Some hn, tail = Some tn, n = length as\<rparr>"
    and L: "links (nodes s) (hn # as @ [tn])" by (simp_all add: is_list_def)
  have d: "a \<noteq> hn" "a \<noteq> tn" using links_distinct[OF L] a by auto
  from is_list_data_node[of s l hn as1 a as2 tn xs] I as obtain nd v where
    nd: "look (nodes s) a = Some nd" "val nd = Some v" by auto
  then show ?thesis using Ls d
    by (simp add: iterator_deref_def deref_list_def deref_def vl_def)
qed

section \<open>The loops of unique\<close>

lemma uniq_nodes_run_heads: "uniq_nodes f cs = run_heads f cs"
proof (induction f cs rule: uniq_nodes.induct)
  case (3 f a b cs)
  show ?case
  proof (cases "f a = f b")
    case True
    have "map snd (filter (\<lambda>(u, v). f u \<noteq> f v) (zip (a # cs) cs))
        = map snd (filter (\<lambda>(u, v). f u \<noteq> f v) (zip (b # cs) cs))"
      using True by (cases cs) auto
    then show ?thesis using 3 True by (simp add: run_heads_def)
  next
    case False
    then show ?thesis using 3 by (simp add: run_heads_def)
  qed
qed (simp_all add: run_heads_def)

lemma uniq_nodes_remdups_adj: "map f (uniq_nodes f cs) = remdups_adj (map f cs)"
  by (induction f cs rule: uniq_nodes.induct) auto

lemma uniq_nodes_cong: "(\<And>a. a \<in> set cs \<Longrightarrow> f a = g a) \<Longrightarrow> uniq_nodes f cs = uniq_nodes g cs"
  by (induction f cs rule: uniq_nodes.induct) auto

lemma uniq_nodes_run:
  "(\<forall>d\<in>set dups. f d = f c) \<Longrightarrow> rest = [] \<or> f (hd rest) \<noteq> f c \<Longrightarrow>
   uniq_nodes f (c # dups @ rest) = c # uniq_nodes f rest"
proof (induction dups)
  case Nil
  then show ?case by (cases rest) auto
next
  case (Cons d dups)
  then show ?case by simp
qed

lemma uniq_nodes_subset: "set (uniq_nodes f cs) \<subseteq> set cs"
  by (induction f cs rule: uniq_nodes.induct) auto

lemma uniq_nodes_short: "length cs \<le> 1 \<Longrightarrow> uniq_nodes f cs = cs"
  by (cases cs; cases "tl cs") auto

lemma unlink_delete_vl:
  assumes I: "is_list s l hn (as1 @ a # as2) tn xs"
    and e: "erase_node (nodes s) (Some a) \<bind> (\<lambda>h1. delete_ptr h1 (Some a)) = Some h'"
  shows "\<forall>b. b \<noteq> a \<longrightarrow> vl h' b = vl (nodes s) b"
proof -
  from I have L: "links (nodes s) ((hn # as1) @ a # (as2 @ [tn]))" by (simp add: is_list_def)
  from erase_delete_links[OF L] e show ?thesis by auto
qed


lemma unique_inner_run:
  "is_list s l hn (pre @ c # dups @ rest) tn xs \<Longrightarrow>
   \<forall>d\<in>set dups. vl (nodes s) d = vl (nodes s) c \<Longrightarrow>
   rest = [] \<or> vl (nodes s) (hd rest) \<noteq> vl (nodes s) c \<Longrightarrow>
   \<exists>s' xs'. unique_inner s l (Some c) (hdp (Some tn) (dups @ rest))
               = Some (Return s' (hdp (Some tn) rest)) \<and>
     is_list s' l hn (pre @ c # rest) tn xs' \<and>
     (\<forall>a. a \<notin> set dups \<longrightarrow> vl (nodes s') a = vl (nodes s) a) \<and>
     (\<forall>d\<in>set dups. look (nodes s') d = None) \<and>
     (\<forall>a. a \<notin> set (hn # pre @ c # dups @ rest @ [tn]) \<longrightarrow> look (nodes s') a = look (nodes s) a)"
proof (induction dups arbitrary: s xs)
  case Nil
  from Nil.prems(1) have Ls: "lists s l = Some \<lparr>head = Some hn, tail = Some tn, n = length (pre @ c # rest)\<rparr>"
    and L: "links (nodes s) (hn # (pre @ c # rest) @ [tn])" by (simp_all add: is_list_def)
  from is_list_data_node[of s l hn pre c rest tn xs] Nil.prems(1) obtain cn cv where
    cn: "look (nodes s) c = Some cn" "val cn = Some cv" by auto
  have "unique_inner s l (Some c) (hdp (Some tn) rest) = Some (Return s (hdp (Some tn) rest))"
  proof (cases rest)
    case Nil
    then show ?thesis using Ls by (subst unique_inner.simps) simp
  next
    case (Cons r rs)
    from is_list_data_node[of s l hn "pre @ [c]" r rs tn xs] Nil.prems(1) Cons obtain rn rv where
      rn: "look (nodes s) r = Some rn" "val rn = Some rv" by auto
    have "r \<noteq> tn" using links_distinct[OF L] Cons by auto
    moreover have "cv \<noteq> rv" using Nil.prems(3) Cons cn rn by (auto simp: vl_def)
    ultimately show ?thesis using Ls Cons cn rn
      by (subst unique_inner.simps) (simp add: deref_def)
  qed
  then show ?case using Nil.prems(1) by auto
next
  case (Cons d dups)
  let ?h = "nodes s"
  from Cons.prems(1) have Ls: "lists s l = Some \<lparr>head = Some hn, tail = Some tn, n = length (pre @ c # (d # dups) @ rest)\<rparr>"
    and L: "links ?h (hn # (pre @ c # (d # dups) @ rest) @ [tn])" by (simp_all add: is_list_def)
  have dl: "d \<noteq> tn" "d \<noteq> c" "d \<notin> set dups" "d \<notin> set rest" using links_distinct[OF L] by auto
  from is_list_data_node[of s l hn pre c "(d # dups) @ rest" tn xs] Cons.prems(1) obtain cn cv where
    cn: "look ?h c = Some cn" "val cn = Some cv" by auto
  have I': "is_list s l hn ((pre @ [c]) @ d # (dups @ rest)) tn xs" using Cons.prems(1) by simp
  from is_list_data_node[OF I'] obtain dn dv where
    dn: "look ?h d = Some dn" "val dn = Some dv" "next dn = hdp (Some tn) (dups @ rest)" by auto
  have eq: "cv = dv" using Cons.prems(2) cn dn by (auto simp: vl_def)
  from unlink_delete_is_list[OF I'] obtain h' where h':
    "erase_node ?h (Some d) \<bind> (\<lambda>h1. delete_ptr h1 (Some d)) = Some h'"
    "is_list (s\<lparr>nodes := h',
         lists := (lists s)(l \<mapsto> \<lparr>head = Some hn, tail = Some tn, n = length ((pre @ [c]) @ (dups @ rest))\<rparr>)\<rparr>)
       l hn ((pre @ [c]) @ (dups @ rest)) tn
       (take (length (pre @ [c])) xs @ drop (Suc (length (pre @ [c]))) xs)"
    "look h' d = None"
    "\<forall>b. b \<notin> set (hn # (pre @ [c]) @ d # (dups @ rest) @ [tn]) \<longrightarrow> look h' b = look ?h b" by blast
  note vp = unlink_delete_vl[OF I' h'(1)]
  let ?s2 = "s\<lparr>nodes := h',
         lists := (lists s)(l \<mapsto> \<lparr>head = Some hn, tail = Some tn, n = length ((pre @ [c]) @ (dups @ rest))\<rparr>)\<rparr>"
  have step: "unique_inner s l (Some c) (hdp (Some tn) ((d # dups) @ rest))
        = unique_inner ?s2 l (Some c) (hdp (Some tn) (dups @ rest))"
    using Ls dl cn dn eq h'(1)
    by (subst unique_inner.simps) (simp add: deref_def dec_n_def)
  have I2: "is_list ?s2 l hn (pre @ c # dups @ rest) tn
       (take (length (pre @ [c])) xs @ drop (Suc (length (pre @ [c]))) xs)"
    using h'(2) by simp
  have p2: "\<forall>d'\<in>set dups. vl (nodes ?s2) d' = vl (nodes ?s2) c"
    using Cons.prems(2) vp dl by auto
  have p3: "rest = [] \<or> vl (nodes ?s2) (hd rest) \<noteq> vl (nodes ?s2) c"
    using Cons.prems(3) vp dl by (cases rest) auto
  from Cons.IH[OF I2 p2 p3] obtain s' xs' where s':
    "unique_inner ?s2 l (Some c) (hdp (Some tn) (dups @ rest)) = Some (Return s' (hdp (Some tn) rest))"
    "is_list s' l hn (pre @ c # rest) tn xs'"
    "\<forall>a. a \<notin> set dups \<longrightarrow> vl (nodes s') a = vl (nodes ?s2) a"
    "\<forall>d\<in>set dups. look (nodes s') d = None"
    "\<forall>a. a \<notin> set (hn # pre @ c # dups @ rest @ [tn]) \<longrightarrow> look (nodes s') a = look (nodes ?s2) a"
    by blast
  have dn': "d \<notin> set (hn # pre @ c # dups @ rest @ [tn])" using links_distinct[OF L] by auto
  have fd: "look (nodes s') d = None" using s'(5) dn' h'(3) by simp
  have v: "\<forall>a. a \<notin> set (d # dups) \<longrightarrow> vl (nodes s') a = vl ?h a"
    using s'(3) vp by auto
  have f: "\<forall>a. a \<notin> set (hn # pre @ c # (d # dups) @ rest @ [tn]) \<longrightarrow> look (nodes s') a = look ?h a"
    using s'(5) h'(4) by auto
  show ?case using step s'(1,2,4) fd v f by auto
qed


lemma unique_outer_run:
  "is_list s l hn (pre @ rem) tn xs \<Longrightarrow>
   \<exists>s' xs'. unique_outer s l (hdp (Some tn) rem) = Some (Return s' ()) \<and>
     is_list s' l hn (pre @ uniq_nodes (vl (nodes s)) rem) tn xs' \<and>
     (\<forall>a\<in>set (pre @ uniq_nodes (vl (nodes s)) rem). vl (nodes s') a = vl (nodes s) a) \<and>
     (\<forall>a\<in>set rem. a \<notin> set (uniq_nodes (vl (nodes s)) rem) \<longrightarrow> look (nodes s') a = None) \<and>
     (\<forall>a. a \<notin> set (hn # pre @ rem @ [tn]) \<longrightarrow> look (nodes s') a = look (nodes s) a)"
proof (induction rem arbitrary: s pre xs rule: length_induct)
  case (1 rem)
  let ?h = "nodes s"
  from "1.prems" have Ls: "lists s l = Some \<lparr>head = Some hn, tail = Some tn, n = length (pre @ rem)\<rparr>"
    and L: "links ?h (hn # (pre @ rem) @ [tn])" by (simp_all add: is_list_def)
  note D = links_distinct[OF L]
  show ?case
  proof (cases rem)
    case Nil
    have "unique_outer s l (Some tn) = Some (Return s ())"
      using Ls by (subst unique_outer.simps) simp
    then show ?thesis using Nil "1.prems" by auto
  next
    case (Cons c cs)
    define dups where "dups = takeWhile (\<lambda>x. vl ?h x = vl ?h c) cs"
    define rest where "rest = dropWhile (\<lambda>x. vl ?h x = vl ?h c) cs"
    have cs: "cs = dups @ rest" by (simp add: dups_def rest_def)
    have q2: "\<forall>d\<in>set dups. vl ?h d = vl ?h c" unfolding dups_def by (auto dest: set_takeWhileD)
    have q3: "rest = [] \<or> vl ?h (hd rest) \<noteq> vl ?h c"
      unfolding rest_def using hd_dropWhile[of "\<lambda>x. vl ?h x = vl ?h c" cs] by auto
    have I: "is_list s l hn (pre @ c # dups @ rest) tn xs" using "1.prems" Cons cs by simp
    from unique_inner_run[OF I q2 q3] obtain s1 xs1 where s1:
      "unique_inner s l (Some c) (hdp (Some tn) (dups @ rest)) = Some (Return s1 (hdp (Some tn) rest))"
      "is_list s1 l hn (pre @ c # rest) tn xs1"
      "\<forall>a. a \<notin> set dups \<longrightarrow> vl (nodes s1) a = vl ?h a"
      "\<forall>d\<in>set dups. look (nodes s1) d = None"
      "\<forall>a. a \<notin> set (hn # pre @ c # dups @ rest @ [tn]) \<longrightarrow> look (nodes s1) a = look ?h a"
      by blast
    from is_list_data_node[OF I] obtain cn where
      cn: "look ?h c = Some cn" "next cn = hdp (Some tn) (dups @ rest)" by auto
    have ct: "c \<noteq> tn" using D Cons by auto
    have step: "unique_outer s l (hdp (Some tn) rem) = unique_outer s1 l (hdp (Some tn) rest)"
      using Ls Cons ct cn s1(1) by (subst unique_outer.simps) (simp add: deref_def)
    have len: "length rest < length rem" using Cons cs by simp
    have I1: "is_list s1 l hn ((pre @ [c]) @ rest) tn xs1" using s1(2) by simp
    from "1.IH"[rule_format, OF len I1] obtain s' xs' where s':
      "unique_outer s1 l (hdp (Some tn) rest) = Some (Return s' ())"
      "is_list s' l hn ((pre @ [c]) @ uniq_nodes (vl (nodes s1)) rest) tn xs'"
      "\<forall>a\<in>set ((pre @ [c]) @ uniq_nodes (vl (nodes s1)) rest). vl (nodes s') a = vl (nodes s1) a"
      "\<forall>a\<in>set rest. a \<notin> set (uniq_nodes (vl (nodes s1)) rest) \<longrightarrow> look (nodes s') a = None"
      "\<forall>a. a \<notin> set (hn # (pre @ [c]) @ rest @ [tn]) \<longrightarrow> look (nodes s') a = look (nodes s1) a"
      by blast
    have dd: "set dups \<inter> set (hn # pre @ c # rest @ [tn]) = {}" using D Cons cs by auto
    have u1: "uniq_nodes (vl (nodes s1)) rest = uniq_nodes (vl ?h) rest"
      by (rule uniq_nodes_cong) (use s1(3) dd in auto)
    have u2: "uniq_nodes (vl ?h) rem = c # uniq_nodes (vl ?h) rest"
      unfolding Cons cs using uniq_nodes_run[OF q2 q3] .
    have sub: "set (uniq_nodes (vl ?h) rest) \<subseteq> set rest" by (rule uniq_nodes_subset)
    have a: "is_list s' l hn (pre @ uniq_nodes (vl ?h) rem) tn xs'"
      using s'(2) by (simp add: u1 u2)
    have b: "\<forall>a\<in>set (pre @ uniq_nodes (vl ?h) rem). vl (nodes s') a = vl ?h a"
    proof
      fix a assume a: "a \<in> set (pre @ uniq_nodes (vl ?h) rem)"
      then have "a \<in> set ((pre @ [c]) @ uniq_nodes (vl (nodes s1)) rest)" by (simp add: u1 u2)
      then have "vl (nodes s') a = vl (nodes s1) a" using s'(3) by blast
      moreover have "a \<in> set pre \<or> a = c \<or> a \<in> set rest" using a sub unfolding u2 by auto
      then have "a \<notin> set dups" using dd by auto
      ultimately show "vl (nodes s') a = vl ?h a" using s1(3) by simp
    qed
    have c: "\<forall>a\<in>set rem. a \<notin> set (uniq_nodes (vl ?h) rem) \<longrightarrow> look (nodes s') a = None"
    proof (intro ballI impI)
      fix a assume a: "a \<in> set rem" "a \<notin> set (uniq_nodes (vl ?h) rem)"
      from a(2) have ac: "a \<noteq> c" and nr: "a \<notin> set (uniq_nodes (vl ?h) rest)"
        unfolding u2 by auto
      from a(1) ac have "a \<in> set dups \<or> a \<in> set rest" by (auto simp: Cons cs)
      then show "look (nodes s') a = None"
      proof
        assume ad: "a \<in> set dups"
        then have "a \<notin> set (hn # (pre @ [c]) @ rest @ [tn])" using dd by auto
        then show ?thesis using s'(5) s1(4) ad by simp
      next
        assume "a \<in> set rest"
        then show ?thesis using s'(4) nr by (simp add: u1)
      qed
    qed
    have d: "\<forall>a. a \<notin> set (hn # pre @ rem @ [tn]) \<longrightarrow> look (nodes s') a = look ?h a"
      using s'(5) s1(5) by (auto simp: Cons cs)
    have r: "unique_outer s l (hdp (Some tn) rem) = Some (Return s' ())"
      using step s'(1) by simp
    from r a b c d show ?thesis
      by - (rule exI[of _ s'], rule exI[of _ xs'], intro conjI; assumption)
  qed
qed

lemma is_list_unique:
  assumes I: "is_list s l hn as tn xs"
  shows "\<exists>s'. list_unique s l = Some (Return s' ()) \<and>
           is_list s' l hn (uniq_nodes (vl (nodes s)) as) tn (remdups_adj xs) \<and>
           (\<forall>a\<in>set as. a \<notin> set (uniq_nodes (vl (nodes s)) as) \<longrightarrow> look (nodes s') a = None) \<and>
           (length as \<le> 1 \<longrightarrow> s' = s)"
proof -
  let ?h = "nodes s"
  from I have Ls: "lists s l = Some \<lparr>head = Some hn, tail = Some tn, n = length as\<rparr>"
    and V: "map (vl ?h) as = map Some xs" by (simp_all add: is_list_def)
  have rx: "remdups_adj (map Some xs) = map Some (remdups_adj xs)"
    by (simp add: remdups_adj_map_injective)
  show ?thesis
  proof (cases "length as \<le> 1")
    case True
    have "list_unique s l = Some (Return s ())" using Ls True by (simp add: list_unique_def)
    moreover have "uniq_nodes (vl ?h) as = as" using True by (rule uniq_nodes_short)
    moreover have "remdups_adj xs = xs"
      using True V by (cases xs; cases "tl xs") (auto dest: arg_cong[of _ _ length])
    ultimately show ?thesis using I by simp
  next
    case False
    from is_list_head_node[OF I] obtain hnd where hnd:
      "look ?h hn = Some hnd" "next hnd = hdp (Some tn) as" by auto
    have I0: "is_list s l hn ([] @ as) tn xs" using I by simp
    from unique_outer_run[OF I0] obtain s' xs' where s':
      "unique_outer s l (hdp (Some tn) as) = Some (Return s' ())"
      "is_list s' l hn (uniq_nodes (vl ?h) as) tn xs'"
      "\<forall>a\<in>set (uniq_nodes (vl ?h) as). vl (nodes s') a = vl ?h a"
      "\<forall>a\<in>set as. a \<notin> set (uniq_nodes (vl ?h) as) \<longrightarrow> look (nodes s') a = None"
      by auto
    have r: "list_unique s l = Some (Return s' ())"
      using Ls False hnd s'(1) by (simp add: list_unique_def deref_def)
    have "map (vl (nodes s')) (uniq_nodes (vl ?h) as) = map (vl ?h) (uniq_nodes (vl ?h) as)"
      using s'(3) by simp
    also have "\<dots> = remdups_adj (map (vl ?h) as)" by (rule uniq_nodes_remdups_adj)
    also have "\<dots> = map Some (remdups_adj xs)" unfolding V rx ..
    finally have "map (vl (nodes s')) (uniq_nodes (vl ?h) as) = map Some (remdups_adj xs)" .
    then have "is_list s' l hn (uniq_nodes (vl ?h) as) tn (remdups_adj xs)"
      using s'(2) by (simp add: is_list_def)
    then show ?thesis using r s'(4) False by auto
  qed
qed

section \<open>The merge of two node lists\<close>

lemma merge_nodes_Nil2 [simp]: "merge_nodes k as [] = as"
  by (cases as) auto

lemma set_merge_nodes [simp]: "set (merge_nodes k as bs) = set as \<union> set bs"
  by (induction k as bs rule: merge_nodes.induct) auto

lemma length_merge_nodes [simp]: "length (merge_nodes k as bs) = length as + length bs"
  by (induction k as bs rule: merge_nodes.induct) auto

lemma sorted_merge_nodes:
  "sorted (map k as) \<Longrightarrow> sorted (map k bs) \<Longrightarrow> sorted (map k (merge_nodes k as bs))"
  by (induction k as bs rule: merge_nodes.induct) (auto simp: less_le)

lemma filter_merge_nodes:
  "set as \<inter> set bs = {} \<Longrightarrow>
   filter (\<lambda>c. c \<in> set as) (merge_nodes k as bs) = as \<and>
   filter (\<lambda>c. c \<in> set bs) (merge_nodes k as bs) = bs"
proof (induction k as bs rule: merge_nodes.induct)
  case (1 k bs)
  then show ?case by simp
next
  case (2 k a as)
  then show ?case by simp
next
  case (3 k a as b bs)
  have fa: "filter (\<lambda>c. c = a \<or> c \<in> set as) bs = []" "filter (\<lambda>c. c = b \<or> c \<in> set bs) as = []"
    using "3.prems" by (auto simp: filter_empty_conv)
  show ?case
  proof (cases "k b < k a")
    case True
    have "set (a # as) \<inter> set bs = {}" using "3.prems" by auto
    from "3.IH"(1)[OF True this] have
      i1: "filter (\<lambda>c. c \<in> set (a # as)) (merge_nodes k (a # as) bs) = a # as"
      and i2: "filter (\<lambda>c. c \<in> set bs) (merge_nodes k (a # as) bs) = bs" by auto
    have "filter (\<lambda>c. c \<in> set (b # bs)) (merge_nodes k (a # as) bs)
        = filter (\<lambda>c. c \<in> set bs) (merge_nodes k (a # as) bs)"
      by (rule filter_cong) (use "3.prems" in auto)
    then show ?thesis using True i1 i2 "3.prems" by auto
  next
    case False
    have "set as \<inter> set (b # bs) = {}" using "3.prems" by auto
    from "3.IH"(2)[OF False this] have
      i1: "filter (\<lambda>c. c \<in> set as) (merge_nodes k as (b # bs)) = as"
      and i2: "filter (\<lambda>c. c \<in> set (b # bs)) (merge_nodes k as (b # bs)) = b # bs" by auto
    have "filter (\<lambda>c. c \<in> set (a # as)) (merge_nodes k as (b # bs))
        = filter (\<lambda>c. c \<in> set as) (merge_nodes k as (b # bs))"
      by (rule filter_cong) (use "3.prems" in auto)
    then show ?thesis using False i1 i2 "3.prems" by auto
  qed
qed

lemma merge_nodes_order:
  "sorted (map k as) \<Longrightarrow> set as \<inter> set bs = {} \<Longrightarrow>
   merge_nodes k as bs = P @ b # Q \<Longrightarrow> b \<in> set bs \<Longrightarrow> a \<in> set Q \<Longrightarrow> a \<in> set as \<Longrightarrow>
   k b < k a"
proof (induction k as bs arbitrary: P rule: merge_nodes.induct)
  case (1 k bs)
  then show ?case by simp
next
  case (2 k a' as)
  then show ?case by simp
next
  case (3 k a' as b' bs)
  show ?case
  proof (cases "k b' < k a'")
    case True
    then have M: "b' # merge_nodes k (a' # as) bs = P @ b # Q" using "3.prems"(3) by simp
    show ?thesis
    proof (cases P)
      case Nil
      then have "b = b'" using M by simp
      moreover have "k a' \<le> k a" using "3.prems"(1,6) by auto
      ultimately show ?thesis using True by simp
    next
      case (Cons p P')
      then have M': "merge_nodes k (a' # as) bs = P' @ b # Q" using M by simp
      then have "b \<in> set (a' # as) \<union> set bs" by (metis set_merge_nodes in_set_conv_decomp)
      then have bb: "b \<in> set bs" using "3.prems"(2,4) by auto
      have dj: "set (a' # as) \<inter> set bs = {}" using "3.prems"(2) by auto
      from "3.IH"(1)[OF True "3.prems"(1) dj M' bb "3.prems"(5,6)] show ?thesis .
    qed
  next
    case False
    then have M: "a' # merge_nodes k as (b' # bs) = P @ b # Q" using "3.prems"(3) by simp
    show ?thesis
    proof (cases P)
      case Nil
      then have "b = a'" using M by simp
      then show ?thesis using "3.prems"(2,4) by auto
    next
      case (Cons p P')
      then have M': "merge_nodes k as (b' # bs) = P' @ b # Q" using M by simp
      then have "a \<in> set as \<union> set (b' # bs)" using "3.prems"(5)
        by (metis set_merge_nodes Un_iff set_append list.set_intros(2))
      then have aa: "a \<in> set as" using "3.prems"(2,6) by auto
      have dj: "set as \<inter> set (b' # bs) = {}" using "3.prems"(2) by auto
      have so: "sorted (map k as)" using "3.prems"(1) by simp
      from "3.IH"(2)[OF False so dj M' "3.prems"(4,5) aa] show ?thesis .
    qed
  qed
qed

lemma merge_nodes_order_nth:
  assumes "sorted (map k as)" "set as \<inter> set bs = {}"
    and "i < j" "j < length (merge_nodes k as bs)"
    and "merge_nodes k as bs ! i \<in> set bs" "merge_nodes k as bs ! j \<in> set as"
  shows "k (merge_nodes k as bs ! i) < k (merge_nodes k as bs ! j)"
proof -
  let ?M = "merge_nodes k as bs"
  have i: "i < length ?M" using assms(3,4) by simp
  have M: "?M = take i ?M @ ?M ! i # drop (Suc i) ?M" using i by (rule id_take_nth_drop)
  have "?M ! j = drop (Suc i) ?M ! (j - Suc i)" using assms(3,4) by simp
  moreover have "j - Suc i < length (drop (Suc i) ?M)" using assms(3,4) by simp
  ultimately have "?M ! j \<in> set (drop (Suc i) ?M)" by (metis nth_mem)
  from merge_nodes_order[OF assms(1,2) M assms(5) this assms(6)] show ?thesis .
qed

lemma zip_map_key: "zip as (map k as) = map (\<lambda>a. (a, k a)) as"
  by (induction as) auto

lemma merge_tagged_nodes:
  "merge_tagged (map (\<lambda>a. (a, k a)) as) (map (\<lambda>a. (a, k a)) bs)
     = map (\<lambda>a. (a, k a)) (merge_nodes k as bs)"
  by (induction k as bs rule: merge_nodes.induct) auto

section \<open>The loops of merge\<close>

lemma set_next_same:
  "look h a = Some nd \<Longrightarrow> next nd = v \<Longrightarrow> set_next h (Some a) v = Some h"
  by (auto simp: set_next_def look_def list_update_same_conv split: if_splits)

lemma set_prev_same:
  "look h a = Some nd \<Longrightarrow> prev nd = v \<Longrightarrow> set_prev h (Some a) v = Some h"
  by (auto simp: set_prev_def look_def list_update_same_conv split: if_splits)

lemma move_node:
  assumes LB: "links h (xb @ b # yb)" and nb: "xb \<noteq> []" "yb \<noteq> []"
    and LA: "links h (xa @ a # ya)" and na: "xa \<noteq> []"
    and dj: "set (xa @ a # ya) \<inter> set (xb @ b # yb) = {}"
  shows "\<exists>h'. erase_node h (Some b) \<bind> (\<lambda>h1. insert_node h1 (Some a) (Some b)) = Some h' \<and>
           links h' (xb @ yb) \<and> links h' (xa @ b # a # ya) \<and> vals h' = vals h"
proof -
  from erase_node_links[OF LB nb] obtain h1 where h1:
    "erase_node h (Some b) = Some h1" "links h1 (xb @ yb)" "vals h1 = vals h" "look h1 b \<noteq> None"
    "\<forall>c. c \<notin> set (xb @ b # yb) \<longrightarrow> look h1 c = look h c" by blast
  have "\<forall>c\<in>set (xa @ a # ya). look h1 c = look h c" using h1(5) dj by blast
  from links_cong[OF this] LA have LA1: "links h1 (xa @ a # ya)" by simp
  from h1(4) obtain bn where bn: "look h1 b = Some bn" by auto
  have fr: "b \<notin> set (xa @ a # ya)" using dj by auto
  from insert_node_links[OF LA1 na bn fr] obtain h' where h':
    "insert_node h1 (Some a) (Some b) = Some h'" "links h' (xa @ b # a # ya)" "vals h' = vals h1"
    "\<forall>c. c \<notin> set (xa @ a # ya) \<longrightarrow> c \<noteq> b \<longrightarrow> look h' c = look h1 c" by blast
  have "b \<notin> set (xb @ yb)" using links_distinct[OF LB] by auto
  then have "\<forall>c\<in>set (xb @ yb). look h' c = look h1 c" using h'(4) dj by auto
  from links_cong[OF this] h1(2) have "links h' (xb @ yb)" by simp
  then show ?thesis using h1(1,3) h'(1,2,3) by auto
qed

lemma merge_step:
  assumes IA: "is_list s l hA (pre @ ra) tA (map k (pre @ ra))"
    and IB: "is_list s other hB (b # rb) tB (map k (b # rb))"
    and ne: "l \<noteq> other"
    and dj: "set (hA # pre @ ra @ [tA]) \<inter> set (hB # b # rb @ [tB]) = {}"
  shows "\<exists>h' s'. erase_node (nodes s) (Some b) \<bind> (\<lambda>h1. insert_node h1 (hdp (Some tA) ra) (Some b)) = Some h' \<and>
           inc_n (s\<lparr>nodes := h'\<rparr>) l \<bind> (\<lambda>s2. dec_n s2 other) = Some s' \<and>
           is_list s' l hA (pre @ b # ra) tA (map k (pre @ b # ra)) \<and>
           is_list s' other hB rb tB (map k rb) \<and>
           vals (nodes s') = vals (nodes s)"
proof -
  let ?h = "nodes s"
  from IA have LsA: "lists s l = Some \<lparr>head = Some hA, tail = Some tA, n = length (pre @ ra)\<rparr>"
    and LA: "links ?h (hA # (pre @ ra) @ [tA])"
    and VA: "vl ?h hA = None" "vl ?h tA = None" "map (vl ?h) (pre @ ra) = map Some (map k (pre @ ra))"
    by (simp_all add: is_list_def)
  from IB have LsB: "lists s other = Some \<lparr>head = Some hB, tail = Some tB, n = length (b # rb)\<rparr>"
    and LB: "links ?h (hB # (b # rb) @ [tB])"
    and VB: "vl ?h hB = None" "vl ?h tB = None" "map (vl ?h) (b # rb) = map Some (map k (b # rb))"
    by (simp_all add: is_list_def)
  obtain x ya where x: "ra @ [tA] = x # ya" by (cases ra) auto
  then have hx: "hdp (Some tA) ra = Some x" by (cases ra) auto
  have LA': "links ?h ((hA # pre) @ x # ya)" using LA x by simp
  have LB': "links ?h ([hB] @ b # (rb @ [tB]))" using LB by simp
  have dj': "set ((hA # pre) @ x # ya) \<inter> set ([hB] @ b # (rb @ [tB])) = {}"
    using dj x[symmetric] by auto
  from move_node[OF LB' _ _ LA' _ dj'] obtain h' where h':
    "erase_node ?h (Some b) \<bind> (\<lambda>h1. insert_node h1 (Some x) (Some b)) = Some h'"
    "links h' ([hB] @ (rb @ [tB]))" "links h' ((hA # pre) @ b # x # ya)" "vals h' = vals ?h"
    by auto
  let ?s' = "s\<lparr>nodes := h', lists := (lists s)
      (l \<mapsto> \<lparr>head = Some hA, tail = Some tA, n = Suc (length (pre @ ra))\<rparr>,
       other \<mapsto> \<lparr>head = Some hB, tail = Some tB, n = length rb\<rparr>)\<rparr>"
  have cnt: "inc_n (s\<lparr>nodes := h'\<rparr>) l \<bind> (\<lambda>s2. dec_n s2 other) = Some ?s'"
    using LsA LsB ne by (simp add: inc_n_def dec_n_def size_dec_def)
  have vv: "vl h' = vl ?h" by (rule ext) (rule vals_vl[OF h'(4)])
  have LA2: "links h' (hA # (pre @ b # ra) @ [tA])" using h'(3) x by simp
  have "is_list ?s' l hA (pre @ b # ra) tA (map k (pre @ b # ra))"
    using LA2 VA VB ne by (simp add: is_list_def vv)
  moreover have "is_list ?s' other hB rb tB (map k rb)"
    using h'(2) VB ne by (simp add: is_list_def vv)
  ultimately show ?thesis using h'(1,4) cnt hx by auto
qed

lemma merge_loop2_run:
  "is_list s l hA pre tA (map k pre) \<Longrightarrow> is_list s other hB rb tB (map k rb) \<Longrightarrow>
   l \<noteq> other \<Longrightarrow> set (hA # pre @ [tA]) \<inter> set (hB # rb @ [tB]) = {} \<Longrightarrow>
   \<exists>s'. merge_loop2 s l other (hdp (Some tB) rb) = Some (Return s' ()) \<and>
     is_list s' l hA (pre @ rb) tA (map k (pre @ rb)) \<and>
     is_list s' other hB [] tB [] \<and>
     vals (nodes s') = vals (nodes s)"
proof (induction rb arbitrary: s pre)
  case Nil
  from Nil.prems(2) have LsB: "lists s other = Some \<lparr>head = Some hB, tail = Some tB, n = 0\<rparr>"
    by (simp add: is_list_def)
  have "merge_loop2 s l other (Some tB) = Some (Return s ())"
    using LsB by (subst merge_loop2.simps) simp
  then show ?case using Nil.prems by auto
next
  case (Cons b rb)
  from Cons.prems(1) have LsA: "lists s l = Some \<lparr>head = Some hA, tail = Some tA, n = length pre\<rparr>"
    by (simp add: is_list_def)
  from Cons.prems(2) have LsB: "lists s other = Some \<lparr>head = Some hB, tail = Some tB, n = length (b # rb)\<rparr>"
    and LB: "links (nodes s) (hB # (b # rb) @ [tB])" by (simp_all add: is_list_def)
  have bt: "b \<noteq> tB" "b \<notin> set rb" "b \<noteq> hB" using links_distinct[OF LB] by auto
  from is_list_data_node[of s other hB "[]" b rb tB "map k (b # rb)"] Cons.prems(2)
  obtain bn where bn: "look (nodes s) b = Some bn" "next bn = hdp (Some tB) rb" by auto
  have IA: "is_list s l hA (pre @ []) tA (map k (pre @ []))" using Cons.prems(1) by simp
  have dj: "set (hA # pre @ [] @ [tA]) \<inter> set (hB # b # rb @ [tB]) = {}" using Cons.prems(4) by simp
  from merge_step[OF IA Cons.prems(2,3) dj] obtain h' s1 where s1:
    "erase_node (nodes s) (Some b) \<bind> (\<lambda>h1. insert_node h1 (Some tA) (Some b)) = Some h'"
    "inc_n (s\<lparr>nodes := h'\<rparr>) l \<bind> (\<lambda>s2. dec_n s2 other) = Some s1"
    "is_list s1 l hA (pre @ [b]) tA (map k (pre @ [b]))"
    "is_list s1 other hB rb tB (map k rb)"
    "vals (nodes s1) = vals (nodes s)" by auto
  have step: "merge_loop2 s l other (hdp (Some tB) (b # rb)) = merge_loop2 s1 l other (hdp (Some tB) rb)"
    using LsA LsB bt bn s1(1,2) by (subst merge_loop2.simps) (simp add: deref_def)
  have dj1: "set (hA # (pre @ [b]) @ [tA]) \<inter> set (hB # rb @ [tB]) = {}"
    using Cons.prems(4) bt by auto
  from Cons.IH[OF s1(3,4) Cons.prems(3) dj1] obtain s' where s':
    "merge_loop2 s1 l other (hdp (Some tB) rb) = Some (Return s' ())"
    "is_list s' l hA ((pre @ [b]) @ rb) tA (map k ((pre @ [b]) @ rb))"
    "is_list s' other hB [] tB []"
    "vals (nodes s') = vals (nodes s1)" by blast
  show ?case using step s' s1(5) by auto
qed

lemma merge_loop1_run:
  "is_list s l hA (pre @ ra) tA (map k (pre @ ra)) \<Longrightarrow> is_list s other hB rb tB (map k rb) \<Longrightarrow>
   l \<noteq> other \<Longrightarrow> set (hA # pre @ ra @ [tA]) \<inter> set (hB # rb @ [tB]) = {} \<Longrightarrow>
   \<exists>s1 pre1 rb1. merge_loop1 s l other (hdp (Some tA) ra) (hdp (Some tB) rb)
                    = Some (Return s1 (hdp (Some tB) rb1)) \<and>
     is_list s1 l hA pre1 tA (map k pre1) \<and>
     is_list s1 other hB rb1 tB (map k rb1) \<and>
     pre1 @ rb1 = pre @ merge_nodes k ra rb \<and>
     set (hA # pre1 @ [tA]) \<inter> set (hB # rb1 @ [tB]) = {} \<and>
     vals (nodes s1) = vals (nodes s)"
proof (induction k ra rb arbitrary: s pre rule: merge_nodes.induct)
  case (1 k bs)
  from "1.prems"(1) have LsA: "lists s l = Some \<lparr>head = Some hA, tail = Some tA, n = length pre\<rparr>"
    by (simp add: is_list_def)
  have "merge_loop1 s l other (Some tA) (hdp (Some tB) bs) = Some (Return s (hdp (Some tB) bs))"
    using LsA by (subst merge_loop1.simps) simp
  then show ?case using "1.prems"
    by - (rule exI[of _ s], rule exI[of _ pre], rule exI[of _ bs], simp)
next
  case (2 k a as)
  from "2.prems"(1) have LsA: "lists s l = Some \<lparr>head = Some hA, tail = Some tA, n = length (pre @ a # as)\<rparr>"
    and LA: "links (nodes s) (hA # (pre @ a # as) @ [tA])" by (simp_all add: is_list_def)
  from "2.prems"(2) have LsB: "lists s other = Some \<lparr>head = Some hB, tail = Some tB, n = 0\<rparr>"
    by (simp add: is_list_def)
  have "a \<noteq> tA" using links_distinct[OF LA] by auto
  then have "merge_loop1 s l other (Some a) (Some tB) = Some (Return s (hdp (Some tB) []))"
    using LsA LsB by (subst merge_loop1.simps) simp
  then show ?case using "2.prems"
    by - (rule exI[of _ s], rule exI[of _ "pre @ a # as"], rule exI[of _ "[]"], simp)
next
  case (3 k a as b bs)
  let ?h = "nodes s"
  from "3.prems"(1) have LsA: "lists s l = Some \<lparr>head = Some hA, tail = Some tA, n = length (pre @ a # as)\<rparr>"
    and LA: "links ?h (hA # (pre @ a # as) @ [tA])" by (simp_all add: is_list_def)
  from "3.prems"(2) have LsB: "lists s other = Some \<lparr>head = Some hB, tail = Some tB, n = length (b # bs)\<rparr>"
    and LB: "links ?h (hB # (b # bs) @ [tB])" by (simp_all add: is_list_def)
  have at: "a \<noteq> tA" using links_distinct[OF LA] by auto
  have bt: "b \<noteq> tB" "b \<notin> set bs" "b \<noteq> hB" using links_distinct[OF LB] by auto
  from is_list_data_node[OF "3.prems"(1)] obtain an where
    an: "look ?h a = Some an" "next an = hdp (Some tA) as" "val an = Some (k a)"
    by (auto simp: nth_append)
  from is_list_data_node[of s other hB "[]" b bs tB "map k (b # bs)"] "3.prems"(2) obtain bn where
    bn: "look ?h b = Some bn" "next bn = hdp (Some tB) bs" "val bn = Some (k b)" by auto
  show ?case
  proof (cases "k b < k a")
    case True
    have dj0: "set (hA # pre @ (a # as) @ [tA]) \<inter> set (hB # b # bs @ [tB]) = {}"
      using "3.prems"(4) by simp
    from merge_step[OF "3.prems"(1,2,3) dj0] obtain h' s3 where s3:
      "erase_node ?h (Some b) \<bind> (\<lambda>h1. insert_node h1 (Some a) (Some b)) = Some h'"
      "inc_n (s\<lparr>nodes := h'\<rparr>) l \<bind> (\<lambda>s2. dec_n s2 other) = Some s3"
      "is_list s3 l hA (pre @ b # a # as) tA (map k (pre @ b # a # as))"
      "is_list s3 other hB bs tB (map k bs)"
      "vals (nodes s3) = vals ?h" by auto
    have step: "merge_loop1 s l other (hdp (Some tA) (a # as)) (hdp (Some tB) (b # bs))
          = merge_loop1 s3 l other (hdp (Some tA) (a # as)) (hdp (Some tB) bs)"
      using LsA LsB at bt an bn True s3(1,2)
      by (subst merge_loop1.simps) (simp add: deref_def)
    have I3: "is_list s3 l hA ((pre @ [b]) @ a # as) tA (map k ((pre @ [b]) @ a # as))"
      using s3(3) by simp
    have dj3: "set (hA # (pre @ [b]) @ (a # as) @ [tA]) \<inter> set (hB # bs @ [tB]) = {}"
      using "3.prems"(4) bt by auto
    from "3.IH"(1)[OF True I3 s3(4) "3.prems"(3) dj3] obtain s1 pre1 rb1 where s1:
      "merge_loop1 s3 l other (hdp (Some tA) (a # as)) (hdp (Some tB) bs)
         = Some (Return s1 (hdp (Some tB) rb1))"
      "is_list s1 l hA pre1 tA (map k pre1)" "is_list s1 other hB rb1 tB (map k rb1)"
      "pre1 @ rb1 = (pre @ [b]) @ merge_nodes k (a # as) bs"
      "set (hA # pre1 @ [tA]) \<inter> set (hB # rb1 @ [tB]) = {}"
      "vals (nodes s1) = vals (nodes s3)" by blast
    have "pre1 @ rb1 = pre @ merge_nodes k (a # as) (b # bs)" using s1(4) True by simp
    moreover have "vals (nodes s1) = vals ?h" using s1(6) s3(5) by simp
    moreover have "merge_loop1 s l other (hdp (Some tA) (a # as)) (hdp (Some tB) (b # bs))
          = Some (Return s1 (hdp (Some tB) rb1))" using step s1(1) by simp
    ultimately show ?thesis using s1(2,3,5)
      by - (rule exI[of _ s1], rule exI[of _ pre1], rule exI[of _ rb1], intro conjI; assumption)
  next
    case False
    have step: "merge_loop1 s l other (hdp (Some tA) (a # as)) (hdp (Some tB) (b # bs))
          = merge_loop1 s l other (hdp (Some tA) as) (hdp (Some tB) (b # bs))"
      using LsA LsB at bt an bn False
      by (subst merge_loop1.simps) (simp add: deref_def)
    have I3: "is_list s l hA ((pre @ [a]) @ as) tA (map k ((pre @ [a]) @ as))"
      using "3.prems"(1) by simp
    have dj3: "set (hA # (pre @ [a]) @ as @ [tA]) \<inter> set (hB # (b # bs) @ [tB]) = {}"
      using "3.prems"(4) by auto
    from "3.IH"(2)[OF False I3 "3.prems"(2,3) dj3] obtain s1 pre1 rb1 where s1:
      "merge_loop1 s l other (hdp (Some tA) as) (hdp (Some tB) (b # bs))
         = Some (Return s1 (hdp (Some tB) rb1))"
      "is_list s1 l hA pre1 tA (map k pre1)" "is_list s1 other hB rb1 tB (map k rb1)"
      "pre1 @ rb1 = (pre @ [a]) @ merge_nodes k as (b # bs)"
      "set (hA # pre1 @ [tA]) \<inter> set (hB # rb1 @ [tB]) = {}"
      "vals (nodes s1) = vals ?h" by blast
    have "pre1 @ rb1 = pre @ merge_nodes k (a # as) (b # bs)" using s1(4) False by simp
    moreover have "merge_loop1 s l other (hdp (Some tA) (a # as)) (hdp (Some tB) (b # bs))
          = Some (Return s1 (hdp (Some tB) rb1))" using step s1(1) by simp
    ultimately show ?thesis using s1(2,3,5,6)
      by - (rule exI[of _ s1], rule exI[of _ pre1], rule exI[of _ rb1], intro conjI; assumption)
  qed
qed

lemma map_the_vl:
  assumes "map f as = map Some xs"
  shows "map (\<lambda>a. the (f a)) as = xs"
proof -
  have "map the (map f as) = map the (map Some xs)" using assms by simp
  then show ?thesis by (simp add: comp_def)
qed

lemma is_list_merge:
  assumes IA: "is_list s l hA as tA xs" and IB: "is_list s other hB bs tB ys"
    and ne: "l \<noteq> other" and dj: "set (hA # as @ [tA]) \<inter> set (hB # bs @ [tB]) = {}"
    and k: "k = (\<lambda>a. the (vl (nodes s) a))"
  shows "map k as = xs \<and> map k bs = ys \<and>
         (\<exists>s'. list_merge s l other = Some (Return s' ()) \<and>
           is_list s' l hA (merge_nodes k as bs) tA (map k (merge_nodes k as bs)) \<and>
           is_list s' other hB [] tB [] \<and>
           vals (nodes s') = vals (nodes s))"
proof -
  let ?h = "nodes s"
  from IA have LsA: "lists s l = Some \<lparr>head = Some hA, tail = Some tA, n = length as\<rparr>"
    and VA: "map (vl ?h) as = map Some xs" by (simp_all add: is_list_def)
  from IB have LsB: "lists s other = Some \<lparr>head = Some hB, tail = Some tB, n = length bs\<rparr>"
    and VB: "map (vl ?h) bs = map Some ys" by (simp_all add: is_list_def)
  have kx: "map k as = xs" unfolding k using map_the_vl[OF VA] .
  have ky: "map k bs = ys" unfolding k using map_the_vl[OF VB] .
  from is_list_head_node[OF IA] obtain ha where ha:
    "look ?h hA = Some ha" "next ha = hdp (Some tA) as" by auto
  from is_list_head_node[OF IB] obtain hb where hb:
    "look ?h hB = Some hb" "next hb = hdp (Some tB) bs" by auto
  have IA0: "is_list s l hA ([] @ as) tA (map k ([] @ as))" using IA kx by simp
  have IB0: "is_list s other hB bs tB (map k bs)" using IB ky by simp
  have dj0: "set (hA # [] @ as @ [tA]) \<inter> set (hB # bs @ [tB]) = {}" using dj by simp
  from merge_loop1_run[OF IA0 IB0 ne dj0] obtain s1 pre1 rb1 where s1:
    "merge_loop1 s l other (hdp (Some tA) as) (hdp (Some tB) bs) = Some (Return s1 (hdp (Some tB) rb1))"
    "is_list s1 l hA pre1 tA (map k pre1)" "is_list s1 other hB rb1 tB (map k rb1)"
    "pre1 @ rb1 = [] @ merge_nodes k as bs"
    "set (hA # pre1 @ [tA]) \<inter> set (hB # rb1 @ [tB]) = {}"
    "vals (nodes s1) = vals ?h" by blast
  from merge_loop2_run[OF s1(2,3) ne s1(5)] obtain s2 where s2:
    "merge_loop2 s1 l other (hdp (Some tB) rb1) = Some (Return s2 ())"
    "is_list s2 l hA (pre1 @ rb1) tA (map k (pre1 @ rb1))"
    "is_list s2 other hB [] tB []"
    "vals (nodes s2) = vals (nodes s1)" by blast
  from s2(3) have LsB2: "lists s2 other = Some \<lparr>head = Some hB, tail = Some tB, n = 0\<rparr>"
    by (simp add: is_list_def)
  from is_list_head_node[OF s2(3)] obtain hb2 where hb2:
    "look (nodes s2) hB = Some hb2" "next hb2 = Some tB" by auto
  from is_list_tail_node[OF s2(3)] obtain tb2 where tb2:
    "look (nodes s2) tB = Some tb2" "prev tb2 = Some hB" by auto
  have fin: "set_next (nodes s2) (Some hB) (Some tB) \<bind> (\<lambda>h1. set_prev h1 (Some tB) (Some hB))
      = Some (nodes s2)"
    using set_next_same[OF hb2] set_prev_same[OF tb2] by simp
  have "list_merge s l other = Some (Return (s2\<lparr>nodes := nodes s2\<rparr>) ())"
    using ne LsA LsB ha hb s1(1) s2(1) LsB2 fin
    by (simp add: list_merge_def deref_def)
  then have r: "list_merge s l other = Some (Return s2 ())" by simp
  have "is_list s2 l hA (merge_nodes k as bs) tA (map k (merge_nodes k as bs))"
    using s2(2) s1(4) by simp
  moreover have "vals (nodes s2) = vals ?h" using s2(4) s1(6) by simp
  ultimately show ?thesis using r kx ky s2(3) by blast
qed

section \<open>Operations that never throw\<close>

lemma clear_loop_no_throw:
  assumes "clear_loop s l cur = Some r"
  shows "r \<noteq> Throw e s'"
proof -
  have "\<forall>e s'. r \<noteq> Throw e s'"
  proof (rule clear_loop.raw_induct[where P = "\<lambda>s l cur r. \<forall>e s'. r \<noteq> Throw e s'", OF _ assms],
      goal_cases)
    case (1 f s l cur r)
    from "1"(2) show ?case
      by (auto split: option.splits if_splits dest: "1"(1))
  qed
  then show ?thesis by blast
qed

lemma merge_loop1_no_throw:
  assumes "merge_loop1 s l other ai bi = Some r"
  shows "r \<noteq> Throw e s'"
proof -
  have "\<forall>e s'. r \<noteq> Throw e s'"
  proof (rule merge_loop1.raw_induct[where P = "\<lambda>s l other ai bi r. \<forall>e s'. r \<noteq> Throw e s'", OF _ assms],
      goal_cases)
    case (1 f s l other ai bi r)
    from "1"(2) show ?case
      by (auto split: option.splits if_splits dest: "1"(1))
  qed
  then show ?thesis by blast
qed

lemma merge_loop2_no_throw:
  assumes "merge_loop2 s l other bi = Some r"
  shows "r \<noteq> Throw e s'"
proof -
  have "\<forall>e s'. r \<noteq> Throw e s'"
  proof (rule merge_loop2.raw_induct[where P = "\<lambda>s l other bi r. \<forall>e s'. r \<noteq> Throw e s'", OF _ assms],
      goal_cases)
    case (1 f s l other bi r)
    from "1"(2) show ?case
      by (auto split: option.splits if_splits dest: "1"(1))
  qed
  then show ?thesis by blast
qed

lemma reverse_loop_no_throw:
  assumes "reverse_loop s cur = Some r"
  shows "r \<noteq> Throw e s'"
proof -
  have "\<forall>e s'. r \<noteq> Throw e s'"
  proof (rule reverse_loop.raw_induct[where P = "\<lambda>s cur r. \<forall>e s'. r \<noteq> Throw e s'", OF _ assms],
      goal_cases)
    case (1 f s cur r)
    from "1"(2) show ?case
      by (auto split: option.splits if_splits dest: "1"(1))
  qed
  then show ?thesis by blast
qed

lemma unique_inner_no_throw:
  assumes "unique_inner s l cur nx = Some r"
  shows "r \<noteq> Throw e s'"
proof -
  have "\<forall>e s'. r \<noteq> Throw e s'"
  proof (rule unique_inner.raw_induct[where P = "\<lambda>s l cur nx r. \<forall>e s'. r \<noteq> Throw e s'", OF _ assms],
      goal_cases)
    case (1 f s l cur nx r)
    from "1"(2) show ?case
      by (auto split: option.splits if_splits dest: "1"(1))
  qed
  then show ?thesis by blast
qed

lemma unique_outer_no_throw:
  assumes "unique_outer s l cur = Some r"
  shows "r \<noteq> Throw e s'"
proof -
  have "\<forall>e s'. r \<noteq> Throw e s'"
  proof (rule unique_outer.raw_induct[where P = "\<lambda>s l cur r. \<forall>e s'. r \<noteq> Throw e s'", OF _ assms],
      goal_cases)
    case (1 f s l cur r)
    from "1"(2) show ?case
      by (auto split: option.splits if_splits outcome.splits dest: "1"(1) unique_inner_no_throw)
  qed
  then show ?thesis by blast
qed

lemma list_clear_no_throw: "list_clear s l \<noteq> Some (Throw e s')"
  by (auto simp: list_clear_def split: option.splits outcome.splits dest: clear_loop_no_throw)

lemma list_reverse_no_throw: "list_reverse s l \<noteq> Some (Throw e s')"
  by (auto simp: list_reverse_def split: option.splits outcome.splits dest: reverse_loop_no_throw)

lemma list_unique_no_throw: "list_unique s l \<noteq> Some (Throw e s')"
  by (auto simp: list_unique_def split: option.splits outcome.splits dest: unique_outer_no_throw)

lemma list_merge_no_throw: "list_merge s l other \<noteq> Some (Throw e s')"
  by (auto simp: list_merge_def split: option.splits outcome.splits if_splits
      dest: merge_loop1_no_throw merge_loop2_no_throw)

lemma list_dtor_no_throw: "list_dtor s l \<noteq> Some (Throw e s')"
  by (auto simp: list_dtor_def split: option.splits outcome.splits dest: list_clear_no_throw[THEN notE])

lemma sort_collect_no_throw:
  assumes "sort_collect s l cur arr = Some r"
  shows "r \<noteq> Throw e s'"
proof -
  have "\<forall>e s'. r \<noteq> Throw e s'"
  proof (rule sort_collect.raw_induct[where P = "\<lambda>s l cur arr r. \<forall>e s'. r \<noteq> Throw e s'", OF _ assms],
      goal_cases)
    case (1 f s l cur arr r)
    from "1"(2) show ?case
      by (auto split: option.splits if_splits dest: "1"(1))
  qed
  then show ?thesis by blast
qed

lemma list_sort_no_throw: "list_sort srt s l \<noteq> Some (Throw e s')"
  by (auto simp: list_sort_def Let_def split: option.splits outcome.splits if_splits
      dest: sort_collect_no_throw)

lemma front_throw: "list_front s l = Throw e s' \<Longrightarrow> s' = s"
  by (simp add: list_front_def split: option.splits if_splits)

lemma back_throw: "list_back s l = Throw e s' \<Longrightarrow> s' = s"
  by (simp add: list_back_def split: option.splits if_splits)

lemma insert_throw: "list_insert s l pos v = Throw e s' \<Longrightarrow> s' = s"
  by (simp add: list_insert_def new_node_def split: option.splits if_splits)

lemma erase_throw: "list_erase s l pos = Throw e s' \<Longrightarrow> s' = s"
  by (simp add: list_erase_def split: option.splits if_splits)

lemma pop_back_throw: "list_pop_back s l = Throw e s' \<Longrightarrow> s' = s"
  by (simp add: list_pop_back_def split: option.splits if_splits)

lemma pop_front_throw: "list_pop_front s l = Throw e s' \<Longrightarrow> s' = s"
  by (simp add: list_pop_front_def split: option.splits if_splits)

lemma inc_pre_throw: "iterator_inc_pre s it = Throw e it' \<Longrightarrow> it' = it"
  by (simp add: iterator_inc_pre_def split: option.splits if_splits)

lemma inc_post_throw: "iterator_inc_post s it = Throw e it' \<Longrightarrow> it' = it"
  by (simp add: iterator_inc_post_def split: option.splits if_splits)

lemma dec_pre_throw: "iterator_dec_pre s it = Throw e it' \<Longrightarrow> it' = it"
  by (simp add: iterator_dec_pre_def split: option.splits if_splits)

lemma dec_post_throw: "iterator_dec_post s it = Throw e it' \<Longrightarrow> it' = it"
  by (simp add: iterator_dec_post_def split: option.splits if_splits)

lemma deref_throw: "iterator_deref s it = Throw e it' \<Longrightarrow> it' = it"
  by (simp add: iterator_deref_def split: option.splits if_splits)

lemma arrow_throw: "iterator_arrow s it = Throw e it' \<Longrightarrow> it' = it"
  by (simp add: iterator_arrow_def split: option.splits if_splits)

lemma push_back_no_throw: "list_push_back s l v \<noteq> Throw e s'"
  by (simp add: list_push_back_def new_node_def split: option.splits)

lemma push_front_no_throw: "list_push_front s l v \<noteq> Throw e s'"
  by (simp add: list_push_front_def new_node_def split: option.splits)

lemma queries_no_throw:
  "list_ctor s l \<noteq> Throw e s'" "list_begin s l \<noteq> Throw e s'" "list_end s l \<noteq> Throw e s'"
  "list_empty s l \<noteq> Throw e s'" "list_size s l \<noteq> Throw e s'"
  by (simp_all add: list_ctor_is_list list_begin_def list_end_def list_empty_def list_size_def
      split: option.splits)

section \<open>Clearing and copying\<close>

lemma clear_loop_run:
  "lists s l = Some L \<Longrightarrow> tail L = Some tn \<Longrightarrow> distinct rs \<Longrightarrow> tn \<notin> set rs \<Longrightarrow>
   list_all (\<lambda>a. look (nodes s) a \<noteq> None) rs \<Longrightarrow>
   map (nxt (nodes s)) rs = succs (Some tn) rs \<Longrightarrow>
   \<exists>h'. clear_loop s l (hdp (Some tn) rs) = Some (Return (s\<lparr>nodes := h'\<rparr>) ()) \<and>
     length h' = length (nodes s) \<and>
     (\<forall>a. look h' a = (if a \<in> set rs then None else look (nodes s) a))"
proof (induction rs arbitrary: s)
  case Nil
  have "clear_loop s l (Some tn) = Some (Return (s\<lparr>nodes := nodes s\<rparr>) ())"
    using Nil.prems(1,2) by (subst clear_loop.simps) simp
  then show ?case by (intro exI[of _ "nodes s"]) simp
next
  case (Cons r rs)
  let ?h = "nodes s"
  from Cons.prems(5,6) obtain nd where nd: "look ?h r = Some nd" "next nd = hdp (Some tn) rs"
    by (auto simp: nxt_def split: option.splits)
  have rl: "r < length ?h" using look_Some_less[OF nd(1)] .
  have rt: "r \<noteq> tn" "r \<notin> set rs" using Cons.prems(3,4) by auto
  let ?h3 = "?h[r := None]"
  have lk3: "\<And>a. look ?h3 a = (if a = r then None else look ?h a)"
    using rl by (simp add: look_update)
  have step: "clear_loop s l (Some r) = clear_loop (s\<lparr>nodes := ?h3\<rparr>) l (hdp (Some tn) rs)"
    using Cons.prems(1,2) rt nd rl
    by (subst clear_loop.simps)
       (simp add: deref_def set_next_def set_prev_def delete_ptr_def delete_node_def look_update)
  have e: "map (nxt ?h3) rs = map (nxt ?h) rs" using rt by (auto simp: nxt_def lk3)
  have p5: "list_all (\<lambda>a. look (nodes (s\<lparr>nodes := ?h3\<rparr>)) a \<noteq> None) rs"
    using Cons.prems(5) rt by (auto simp: list_all_iff lk3)
  have p6: "map (nxt (nodes (s\<lparr>nodes := ?h3\<rparr>))) rs = succs (Some tn) rs"
    using Cons.prems(6) by (simp add: e)
  have p1: "lists (s\<lparr>nodes := ?h3\<rparr>) l = Some L" using Cons.prems(1) by simp
  have p3: "distinct rs" "tn \<notin> set rs" using Cons.prems(3,4) by auto
  from Cons.IH[OF p1 Cons.prems(2) p3 p5 p6] obtain h' where h':
    "clear_loop (s\<lparr>nodes := ?h3\<rparr>) l (hdp (Some tn) rs) = Some (Return (s\<lparr>nodes := h'\<rparr>) ())"
    "length h' = length ?h"
    "\<forall>a. look h' a = (if a \<in> set rs then None else look ?h3 a)" by auto
  have "\<forall>a. look h' a = (if a \<in> set (r # rs) then None else look ?h a)"
    using h'(3) by (auto simp: lk3)
  then show ?case using step h'(1,2) by auto
qed

lemma is_list_clear:
  assumes I: "is_list s l hn as tn xs"
  shows "\<exists>s'. list_clear s l = Some (Return s' ()) \<and> is_list s' l hn [] tn [] \<and>
          length (nodes s') = length (nodes s) \<and>
          (\<forall>a\<in>set as. look (nodes s') a = None) \<and>
          (\<forall>l'. l' \<noteq> l \<longrightarrow> lists s' l' = lists s l') \<and>
          (\<forall>a. a \<notin> set (hn # as @ [tn]) \<longrightarrow> look (nodes s') a = look (nodes s) a)"
proof -
  let ?h = "nodes s" and ?L = "\<lparr>head = Some hn, tail = Some tn, n = length as\<rparr>"
  from I have Ls: "lists s l = Some ?L" and L: "links ?h (hn # as @ [tn])"
    by (simp_all add: is_list_def)
  note D = links_distinct[OF L]
  from is_list_head_node[OF I] obtain hnd where hnd:
    "look ?h hn = Some hnd" "prev hnd = None" "next hnd = hdp (Some tn) as" "val hnd = None" by auto
  from is_list_tail_node[OF I] obtain tnd where tnd:
    "look ?h tn = Some tnd" "next tnd = None" "val tnd = None" by auto
  have q3: "distinct as" "tn \<notin> set as" using D by auto
  have q5: "list_all (\<lambda>a. look ?h a \<noteq> None) as" using L by (simp add: links_def)
  have q6: "map (nxt ?h) as = succs (Some tn) as" using L by (simp add: links_def)
  from clear_loop_run[OF Ls _ q3 q5 q6] obtain h1 where h1:
    "clear_loop s l (hdp (Some tn) as) = Some (Return (s\<lparr>nodes := h1\<rparr>) ())"
    "length h1 = length ?h"
    "\<forall>a. look h1 a = (if a \<in> set as then None else look ?h a)" by auto
  have hs: "hn \<notin> set as" "tn \<notin> set as" "hn \<noteq> tn" using D by auto
  have l1: "look h1 hn = Some hnd" "look h1 tn = Some tnd" using h1(3) hs hnd tnd by auto
  let ?h2 = "h1[hn := Some (hnd\<lparr>next := Some tn\<rparr>), tn := Some (tnd\<lparr>prev := Some hn\<rparr>)]"
  have lt: "hn < length h1" "tn < length h1" using look_Some_less l1 by blast+
  have fin: "set_next h1 (Some hn) (Some tn) \<bind> (\<lambda>h. set_prev h (Some tn) (Some hn)) = Some ?h2"
    using l1 hs lt by (simp add: set_next_def set_prev_def look_update)
  have lk2: "\<And>a. look ?h2 a = (if a = tn then Some (tnd\<lparr>prev := Some hn\<rparr>)
        else if a = hn then Some (hnd\<lparr>next := Some tn\<rparr>) else look h1 a)"
    using lt by (simp add: look_update)
  let ?s' = "s\<lparr>nodes := ?h2, lists := (lists s)(l \<mapsto> \<lparr>head = Some hn, tail = Some tn, n = 0\<rparr>)\<rparr>"
  have r: "list_clear s l = Some (Return ?s' ())"
    using Ls hnd(1,3) h1(1) fin by (simp add: list_clear_def deref_def)
  have "is_list ?s' l hn [] tn []"
    using hs hnd tnd by (simp add: is_list_def links_def nxt_def prv_def vl_def lk2)
  moreover have "\<forall>a\<in>set as. look (nodes ?s') a = None" using h1(3) hs by (auto simp: lk2)
  moreover have "\<forall>a. a \<notin> set (hn # as @ [tn]) \<longrightarrow> look (nodes ?s') a = look ?h a"
    using h1(3) by (auto simp: lk2)
  moreover have "length (nodes ?s') = length ?h" using h1(2) by simp
  ultimately show ?thesis using r by auto
qed

lemma copy_loop_run:
  "is_list s l hL as tL xs \<Longrightarrow> is_list s other hO (dn @ rest) tO ys \<Longrightarrow> l \<noteq> other \<Longrightarrow>
   set (hL # as @ [tL]) \<inter> set (hO # (dn @ rest) @ [tO]) = {} \<Longrightarrow>
   \<exists>s' as'. copy_loop s l other \<lparr>p = hdp (Some tO) rest, owner = Some other\<rparr> = Some (Return s' ()) \<and>
     is_list s' l hL (as @ as') tL (xs @ drop (length dn) ys) \<and>
     is_list s' other hO (dn @ rest) tO ys \<and>
     (\<forall>a\<in>set as'. length (nodes s) \<le> a) \<and>
     (\<forall>a. a < length (nodes s) \<longrightarrow> a \<notin> set (hL # as @ [tL]) \<longrightarrow> look (nodes s') a = look (nodes s) a) \<and>
     (\<forall>l'. l' \<noteq> l \<longrightarrow> lists s' l' = lists s l')"
proof (induction rest arbitrary: s as xs dn)
  case Nil
  from Nil.prems(2) have Lo: "lists s other = Some \<lparr>head = Some hO, tail = Some tO, n = length (dn @ [])\<rparr>"
    and V: "map (vl (nodes s)) (dn @ []) = map Some ys" by (simp_all add: is_list_def)
  have len: "length dn = length ys" using V by (metis length_map append_Nil2)
  have "copy_loop s l other \<lparr>p = Some tO, owner = Some other\<rparr> = Some (Return s ())"
    using Lo by (subst copy_loop.simps) (simp add: list_end_def iterator_neq_def iterator_eq_def)
  then show ?case using Nil.prems len
    by - (rule exI[of _ s], rule exI[of _ "[]"], simp)
next
  case (Cons b rest)
  let ?h = "nodes s" and ?it = "\<lparr>p = Some b, owner = Some other\<rparr>"
  from Cons.prems(2) have Lo: "lists s other = Some \<lparr>head = Some hO, tail = Some tO, n = length (dn @ b # rest)\<rparr>"
    and LO: "links ?h (hO # (dn @ b # rest) @ [tO])" by (simp_all add: is_list_def)
  from Cons.prems(1) have LL: "links ?h (hL # as @ [tL])" by (simp add: is_list_def)
  have bt: "b \<noteq> tO" "b \<noteq> hO" using links_distinct[OF LO] by auto
  from is_list_data_node[OF Cons.prems(2)] obtain nd where nd:
    "look ?h b = Some nd" "next nd = hdp (Some tO) rest" "val nd = Some (ys ! length dn)"
    "length dn < length ys" by auto
  let ?v = "ys ! length dn"
  have e: "list_end s other = Return s \<lparr>p = Some tO, owner = Some other\<rparr>"
    using Lo by (simp add: list_end_def)
  have d: "iterator_deref s ?it = Return ?it ?v"
    using Lo bt nd by (simp add: iterator_deref_def deref_list_def deref_def)
  from is_list_push_back[OF Cons.prems(1), of ?v] obtain s1 where s1:
    "list_push_back s l ?v = Return s1 ()"
    "is_list s1 l hL (as @ [length ?h]) tL (xs @ [?v])"
    "length (nodes s1) = Suc (length ?h)"
    "\<forall>l'. l' \<noteq> l \<longrightarrow> lists s1 l' = lists s l'"
    "\<forall>a. a \<notin> set (hL # as @ [tL]) \<longrightarrow> a < length ?h \<longrightarrow> look (nodes s1) a = look ?h a"
    by blast
  have olt: "\<And>a. a \<in> set (hO # (dn @ b # rest) @ [tO]) \<Longrightarrow> a < length ?h"
    using links_live[OF LO] by blast
  have ofr: "\<forall>a\<in>set (hO # (dn @ b # rest) @ [tO]). look (nodes s1) a = look ?h a"
    using s1(5) olt Cons.prems(4) by blast
  have Lo1: "lists s1 other = lists s other" using s1(4) Cons.prems(3) by simp
  have IO1: "is_list s1 other hO (dn @ b # rest) tO ys"
    by (rule is_list_frame[OF Cons.prems(2) Lo1 ofr])
  have nd1: "look (nodes s1) b = Some nd" using ofr nd(1) by simp
  have inc: "iterator_inc_pre s1 ?it = Return \<lparr>p = hdp (Some tO) rest, owner = Some other\<rparr>
                                          \<lparr>p = hdp (Some tO) rest, owner = Some other\<rparr>"
    using Lo Lo1 bt nd1 nd(2) by (simp add: iterator_inc_pre_def deref_list_def deref_def)
  have step: "copy_loop s l other \<lparr>p = hdp (Some tO) (b # rest), owner = Some other\<rparr>
      = copy_loop s1 l other \<lparr>p = hdp (Some tO) rest, owner = Some other\<rparr>"
    using e d s1(1) inc bt
    by (subst copy_loop.simps) (simp add: iterator_neq_def iterator_eq_def)
  have IO1': "is_list s1 other hO ((dn @ [b]) @ rest) tO ys" using IO1 by simp
  have dj1: "set (hL # (as @ [length ?h]) @ [tL]) \<inter> set (hO # ((dn @ [b]) @ rest) @ [tO]) = {}"
    using Cons.prems(4) olt by fastforce
  from Cons.IH[OF s1(2) IO1' Cons.prems(3) dj1] obtain s' as' where s':
    "copy_loop s1 l other \<lparr>p = hdp (Some tO) rest, owner = Some other\<rparr> = Some (Return s' ())"
    "is_list s' l hL ((as @ [length ?h]) @ as') tL ((xs @ [?v]) @ drop (length (dn @ [b])) ys)"
    "is_list s' other hO ((dn @ [b]) @ rest) tO ys"
    "\<forall>a\<in>set as'. length (nodes s1) \<le> a"
    "\<forall>a. a < length (nodes s1) \<longrightarrow> a \<notin> set (hL # (as @ [length ?h]) @ [tL]) \<longrightarrow>
         look (nodes s') a = look (nodes s1) a"
    "\<forall>l'. l' \<noteq> l \<longrightarrow> lists s' l' = lists s1 l'" by blast
  have dr: "(xs @ [?v]) @ drop (length (dn @ [b])) ys = xs @ drop (length dn) ys"
    using nd(4) by (simp add: Cons_nth_drop_Suc)
  have a: "is_list s' l hL (as @ (length ?h # as')) tL (xs @ drop (length dn) ys)"
    using s'(2) unfolding dr by simp
  have b: "is_list s' other hO (dn @ b # rest) tO ys" using s'(3) by simp
  have c: "\<forall>a\<in>set (length ?h # as'). length ?h \<le> a" using s'(4) s1(3) by auto
  have f: "\<forall>a. a < length ?h \<longrightarrow> a \<notin> set (hL # as @ [tL]) \<longrightarrow> look (nodes s') a = look ?h a"
    using s'(5) s1(3,5) by auto
  have g: "\<forall>l'. l' \<noteq> l \<longrightarrow> lists s' l' = lists s l'" using s'(6) s1(4) by simp
  have r: "copy_loop s l other \<lparr>p = hdp (Some tO) (b # rest), owner = Some other\<rparr> = Some (Return s' ())"
    using step s'(1) by simp
  from r a b c f g show ?case
    by - (rule exI[of _ s'], rule exI[of _ "length ?h # as'"], intro conjI; assumption)
qed

lemma look_append_less: "a < length h \<Longrightarrow> look (h @ t) a = look h a"
  by (simp add: look_def nth_append)

lemma is_list_assign:
  assumes IL: "is_list s l hL as tL xs" and IO: "is_list s other hO bs tO ys" and ne: "l \<noteq> other"
    and dj: "set (hL # as @ [tL]) \<inter> set (hO # bs @ [tO]) = {}"
  shows "\<exists>s' as'. list_assign s l other = Some (Return s' ()) \<and>
           is_list s' l hL as' tL ys \<and> is_list s' other hO bs tO ys \<and>
           (\<forall>a\<in>set as. look (nodes s') a = None) \<and>
           (\<forall>a\<in>set as'. length (nodes s) \<le> a)"
proof -
  from is_list_clear[OF IL] obtain s0 where s0:
    "list_clear s l = Some (Return s0 ())" "is_list s0 l hL [] tL []"
    "length (nodes s0) = length (nodes s)"
    "\<forall>a\<in>set as. look (nodes s0) a = None"
    "\<forall>l'. l' \<noteq> l \<longrightarrow> lists s0 l' = lists s l'"
    "\<forall>a. a \<notin> set (hL # as @ [tL]) \<longrightarrow> look (nodes s0) a = look (nodes s) a" by blast
  have Lo: "lists s0 other = lists s other" using s0(5) ne by simp
  have fr: "\<forall>a\<in>set (hO # bs @ [tO]). look (nodes s0) a = look (nodes s) a"
    using s0(6) dj by blast
  have IO0: "is_list s0 other hO ([] @ bs) tO ys"
    using is_list_frame[OF IO Lo fr] by simp
  from is_list_head_node[OF IO0] IO0 have bg:
    "list_begin s0 other = Return s0 \<lparr>p = hdp (Some tO) bs, owner = Some other\<rparr>"
    by (auto simp: list_begin_def is_list_def deref_def)
  have dj0: "set (hL # [] @ [tL]) \<inter> set (hO # ([] @ bs) @ [tO]) = {}" using dj by auto
  from copy_loop_run[OF s0(2) IO0 ne dj0] obtain s' as' where s':
    "copy_loop s0 l other \<lparr>p = hdp (Some tO) bs, owner = Some other\<rparr> = Some (Return s' ())"
    "is_list s' l hL ([] @ as') tL ([] @ drop (length ([]::nat list)) ys)"
    "is_list s' other hO ([] @ bs) tO ys"
    "\<forall>a\<in>set as'. length (nodes s0) \<le> a"
    "\<forall>a. a < length (nodes s0) \<longrightarrow> a \<notin> set (hL # [] @ [tL]) \<longrightarrow> look (nodes s') a = look (nodes s0) a"
    by blast
  have r: "list_assign s l other = Some (Return s' ())"
    using ne s0(1) bg s'(1) by (simp add: list_assign_def)
  from IL have LL: "links (nodes s) (hL # as @ [tL])" by (simp add: is_list_def)
  have old: "\<forall>a\<in>set as. look (nodes s') a = None"
  proof
    fix a assume a: "a \<in> set as"
    then have "a < length (nodes s0)" using links_live[OF LL, of a] s0(3) by simp
    moreover have "a \<notin> set (hL # [] @ [tL])" using links_distinct[OF LL] a by auto
    ultimately show "look (nodes s') a = None" using s'(5) s0(4) a by simp
  qed
  from r s'(2,3,4) old s0(3) show ?thesis
    by - (rule exI[of _ s'], rule exI[of _ as'], simp)
qed

lemma is_list_copy:
  assumes IO: "is_list s other hO bs tO ys" and ne: "l \<noteq> other"
  shows "\<exists>s' as'. list_copy s l other = Some (Return s' ()) \<and>
           is_list s' l (length (nodes s)) as' (Suc (length (nodes s))) ys \<and>
           is_list s' other hO bs tO ys \<and>
           (\<forall>a\<in>set as'. length (nodes s) \<le> a)"
proof -
  let ?c = "length (nodes s)"
  from list_ctor_ok[of s l] obtain s0 where s0:
    "list_ctor s l = Return s0 ()" "is_list s0 l ?c [] (Suc ?c) []" by blast
  from s0(1) have n0: "nodes s0 = nodes s @ [Some \<lparr>prev = None, next = Some (Suc ?c), val = None\<rparr>,
                                         Some \<lparr>prev = Some ?c, next = None, val = None\<rparr>]"
    and l0: "lists s0 = (lists s)(l \<mapsto> \<lparr>head = Some ?c, tail = Some (Suc ?c), n = 0\<rparr>)"
    unfolding list_ctor_is_list by auto
  from IO have LO: "links (nodes s) (hO # bs @ [tO])" by (simp add: is_list_def)
  have olt: "\<And>a. a \<in> set (hO # bs @ [tO]) \<Longrightarrow> a < ?c" using links_live[OF LO] by blast
  have Lo: "lists s0 other = lists s other" using l0 ne by simp
  have fr: "\<forall>a\<in>set (hO # bs @ [tO]). look (nodes s0) a = look (nodes s) a"
    using olt unfolding n0 by (auto simp: look_append_less)
  have IO0: "is_list s0 other hO ([] @ bs) tO ys"
    using is_list_frame[OF IO Lo fr] by simp
  from is_list_head_node[OF IO0] IO0 have bg:
    "list_begin s0 other = Return s0 \<lparr>p = hdp (Some tO) bs, owner = Some other\<rparr>"
    by (auto simp: list_begin_def is_list_def deref_def)
  have dj0: "set (?c # [] @ [Suc ?c]) \<inter> set (hO # ([] @ bs) @ [tO]) = {}" using olt by fastforce
  from copy_loop_run[OF s0(2) IO0 ne dj0] obtain s' as' where s':
    "copy_loop s0 l other \<lparr>p = hdp (Some tO) bs, owner = Some other\<rparr> = Some (Return s' ())"
    "is_list s' l ?c ([] @ as') (Suc ?c) ([] @ drop (length ([]::nat list)) ys)"
    "is_list s' other hO ([] @ bs) tO ys"
    "\<forall>a\<in>set as'. length (nodes s0) \<le> a"
    by blast
  have r: "list_copy s l other = Some (Return s' ())"
    using s0(1) bg s'(1) by (simp add: list_copy_def)
  have "\<forall>a\<in>set as'. ?c \<le> a" using s'(4) unfolding n0 by auto
  with r s'(2,3) show ?thesis
    by - (rule exI[of _ s'], rule exI[of _ as'], simp)
qed

section \<open>The example states are reached by the code\<close>

lemmas heap_eval = look_def deref_def deref_list_def set_next_def set_prev_def new_node_def
  delete_node_def delete_ptr_def insert_node_def erase_node_def size_dec_def

lemmas chain_eval = is_list_def links_def nxt_def prv_def vl_def look_def

lemma ex_nil_ctor: "list_ctor empty_state 7 = Return ex_nil ()"
  by (simp add: list_ctor_def empty_state_def ex_nil_def heap_eval)

lemma ex_one_push: "list_push_back ex_nil 7 1 = Return ex_one ()"
  by (simp add: list_push_back_def ex_one_def ex_nil_def heap_eval)

lemma ex_one_is_list: "is_list ex_one 7 0 [2] 1 [1]"
  by (simp add: chain_eval ex_one_def)

lemma ex_three_pushes:
  "run_ops ex_nil 7 [Push_back 1, Push_back 2, Push_back 3] = Return ex_three ()"
  by (simp add: list_push_back_def ex_three_def ex_nil_def heap_eval numeral_3_eq_3)

lemma ex_three_is_list: "is_list ex_three 7 0 [2, 3, 4] 1 [1, 2, 3]"
  by (simp add: chain_eval ex_three_def)

lemma ex_runs_pushes:
  "run_ops ex_nil 7 [Push_back 1, Push_back 1, Push_back 2, Push_back 2, Push_back 2,
                      Push_back 3, Push_back 1] = Return ex_runs ()"
  by (simp add: list_push_back_def ex_runs_def ex_nil_def heap_eval eval_nat_numeral)

lemma ex_ab_built:
  "(case list_ctor ex_nil 8 of
      Return s1 u \<Rightarrow>
        (case run_ops s1 7 [Push_back 1, Push_back 3, Push_back 5] of
           Return s2 u \<Rightarrow> run_ops s2 8 [Push_back 2, Push_back 3, Push_back 4]
         | Throw e s2 \<Rightarrow> Throw e s2
         | Fault \<Rightarrow> Fault)
    | Throw e s1 \<Rightarrow> Throw e s1
    | Fault \<Rightarrow> Fault) = Return ex_ab ()"
  by (simp add: list_ctor_def list_push_back_def ex_ab_def ex_nil_def heap_eval
      eval_nat_numeral fun_upd_twist)

lemma ex_ab_is_list:
  "is_list ex_ab 7 0 [4, 5, 6] 1 [1, 3, 5]" "is_list ex_ab 8 2 [7, 8, 9] 3 [2, 3, 4]"
  by (simp_all add: chain_eval ex_ab_def)

lemma ex_runs_is_list: "is_list ex_runs 7 0 [2, 3, 4, 5, 6, 7, 8] 1 [1, 1, 2, 2, 2, 3, 1]"
  by (simp add: chain_eval ex_runs_def)

section \<open>Iterators at the boundaries\<close>

text \<open>
  C2. The claim: on a non-empty list, \<^verbatim>\<open>--\<close> (prefix or postfix) applied to the iterator
  returned by \<^verbatim>\<open>begin()\<close> fails with \<^verbatim>\<open>invalid_iterator\<close> and does not move the iterator.
  The code does otherwise: on the list \<open>[1]\<close> built by the constructor and one
  \<^verbatim>\<open>push_back\<close>, \<^verbatim>\<open>begin()\<close> is at the data node 2, and both decrements return normally and
  leave the iterator at the head sentinel 0. The guard of \<^verbatim>\<open>operator--\<close> compares with
  \<^verbatim>\<open>owner->head\<close>, one node too far.
\<close>

theorem dec_begin_moves_to_head_sentinel:
  "list_begin ex_one 7 = Return ex_one \<lparr>p = Some 2, owner = Some 7\<rparr> \<and>
   iterator_dec_pre ex_one \<lparr>p = Some 2, owner = Some 7\<rparr>
     = Return \<lparr>p = Some 0, owner = Some 7\<rparr> \<lparr>p = Some 0, owner = Some 7\<rparr> \<and>
   iterator_dec_post ex_one \<lparr>p = Some 2, owner = Some 7\<rparr>
     = Return \<lparr>p = Some 0, owner = Some 7\<rparr> \<lparr>p = Some 2, owner = Some 7\<rparr>"
  by (simp add: list_begin_def iterator_dec_pre_def iterator_dec_post_def ex_one_def heap_eval)

text \<open>
  C7. For a list object \<open>L\<close> at \<open>l\<close>, \<^verbatim>\<open>end()\<close> is the iterator at \<open>tail L\<close> owned by \<open>l\<close>;
  \<^verbatim>\<open>*\<close>, \<^verbatim>\<open>->\<close>, \<^verbatim>\<open>++it\<close> and \<^verbatim>\<open>it++\<close> on it throw \<^verbatim>\<open>invalid_iterator\<close>. On the
  default-constructed iterator all six operators throw \<^verbatim>\<open>invalid_iterator\<close>. Each throw
  carries the iterator object unchanged; the operators only read the state, so the list is
  unchanged as well.
\<close>

theorem end_and_unbound_iterators_throw:
  "(lists s l = Some L \<longrightarrow>
      list_end s l = Return s \<lparr>p = tail L, owner = Some l\<rparr> \<and>
      iterator_deref s \<lparr>p = tail L, owner = Some l\<rparr>
        = Throw invalid_iterator \<lparr>p = tail L, owner = Some l\<rparr> \<and>
      iterator_arrow s \<lparr>p = tail L, owner = Some l\<rparr>
        = Throw invalid_iterator \<lparr>p = tail L, owner = Some l\<rparr> \<and>
      iterator_inc_pre s \<lparr>p = tail L, owner = Some l\<rparr>
        = Throw invalid_iterator \<lparr>p = tail L, owner = Some l\<rparr> \<and>
      iterator_inc_post s \<lparr>p = tail L, owner = Some l\<rparr>
        = Throw invalid_iterator \<lparr>p = tail L, owner = Some l\<rparr>) \<and>
   iterator_deref s iterator_default = Throw invalid_iterator iterator_default \<and>
   iterator_arrow s iterator_default = Throw invalid_iterator iterator_default \<and>
   iterator_inc_pre s iterator_default = Throw invalid_iterator iterator_default \<and>
   iterator_inc_post s iterator_default = Throw invalid_iterator iterator_default \<and>
   iterator_dec_pre s iterator_default = Throw invalid_iterator iterator_default \<and>
   iterator_dec_post s iterator_default = Throw invalid_iterator iterator_default"
  by (simp add: list_end_def iterator_deref_def iterator_arrow_def iterator_inc_pre_def
      iterator_inc_post_def iterator_dec_pre_def iterator_dec_post_def iterator_default_def
      deref_list_def)

theorem end_and_unbound_iterators_throw_witness:
  "lists ex_one 7 = Some \<lparr>head = Some 0, tail = Some 1, n = 1\<rparr> \<and>
   list_end ex_one 7 = Return ex_one \<lparr>p = Some 1, owner = Some 7\<rparr> \<and>
   iterator_deref ex_one \<lparr>p = Some 1, owner = Some 7\<rparr>
     = Throw invalid_iterator \<lparr>p = Some 1, owner = Some 7\<rparr> \<and>
   iterator_inc_pre ex_one \<lparr>p = Some 1, owner = Some 7\<rparr>
     = Throw invalid_iterator \<lparr>p = Some 1, owner = Some 7\<rparr> \<and>
   iterator_inc_post ex_one \<lparr>p = Some 1, owner = Some 7\<rparr>
     = Throw invalid_iterator \<lparr>p = Some 1, owner = Some 7\<rparr>"
proof -
  have L: "lists ex_one 7 = Some \<lparr>head = Some 0, tail = Some 1, n = 1\<rparr>"
    by (simp add: ex_one_def)
  show ?thesis
    using L end_and_unbound_iterators_throw
            [of ex_one 7 "\<lparr>head = Some 0, tail = Some 1, n = 1\<rparr>"]
    by simp
qed

section \<open>Size under pushes and pops\<close>

text \<open>
  C4. On a freshly constructed list, every sequence of \<^verbatim>\<open>push_back\<close>, \<^verbatim>\<open>push_front\<close>,
  \<^verbatim>\<open>pop_back\<close> and \<^verbatim>\<open>pop_front\<close> whose pops find the list non-empty runs to its end without
  exception or fault; afterwards \<^verbatim>\<open>size()\<close> is the number of pushes minus the number of
  pops, and \<^verbatim>\<open>empty()\<close> is true exactly when that number is zero. (A prefix of such a
  sequence is such a sequence, so this holds after every call.)
\<close>

theorem push_pop_size:
  "\<exists>s. list_ctor s0 l = Return s () \<and>
     (pops_guarded 0 cs \<longrightarrow>
       (\<exists>s'. run_ops s l cs = Return s' () \<and> pops cs \<le> pushes cs \<and>
          list_size s' l = Return s' (pushes cs - pops cs) \<and>
          list_empty s' l = Return s' (pushes cs - pops cs = 0)))"
proof -
  from list_ctor_ok[of s0 l] obtain s where s:
    "list_ctor s0 l = Return s ()" "is_list s l (length (nodes s0)) [] (Suc (length (nodes s0))) []"
    by blast
  have "\<exists>s'. run_ops s l cs = Return s' () \<and> pops cs \<le> pushes cs \<and>
          list_size s' l = Return s' (pushes cs - pops cs) \<and>
          list_empty s' l = Return s' (pushes cs - pops cs = 0)" if g: "pops_guarded 0 cs"
  proof -
    have "pops_guarded (length ([]::nat list)) cs" using g by simp
    from run_ops_is_list[OF s(2) this] obtain s' as' xs' where s':
      "run_ops s l cs = Return s' ()" "is_list s' l (length (nodes s0)) as' (Suc (length (nodes s0))) xs'"
      "length as' + pops cs = pushes cs" by auto
    from s'(3) have "pops cs \<le> pushes cs" "length as' = pushes cs - pops cs" by arith+
    then show ?thesis using s'(1) is_list_size[OF s'(2)] is_list_empty[OF s'(2)] by auto
  qed
  then show ?thesis using s(1) by blast
qed

theorem push_pop_size_witness:
  "pops_guarded 0 [Push_back (1::int), Push_front 2, Pop_back, Push_back 3, Pop_front] \<and>
   (\<exists>s'. run_ops ex_nil 7 [Push_back 1, Push_front 2, Pop_back, Push_back 3, Pop_front]
            = Return s' () \<and>
          list_size s' 7 = Return s' 1 \<and> list_empty s' 7 = Return s' False)"
proof -
  let ?cs = "[Push_back (1::int), Push_front 2, Pop_back, Push_back 3, Pop_front]"
  have g: "pops_guarded 0 ?cs" by simp
  have c: "pushes ?cs - pops ?cs = 1" by (simp add: pushes_def pops_def)
  from push_pop_size[of empty_state 7 ?cs] g
  obtain s' where "run_ops ex_nil 7 ?cs = Return s' ()"
    "list_size s' 7 = Return s' (pushes ?cs - pops ?cs)"
    "list_empty s' 7 = Return s' (pushes ?cs - pops ?cs = 0)"
    unfolding ex_nil_ctor by auto
  then show ?thesis using g unfolding c by auto
qed

section \<open>Erasing at an iterator\<close>

text \<open>
  C3. \<^verbatim>\<open>erase(pos)\<close> on the list object \<open>L\<close> at \<open>l\<close> throws \<^verbatim>\<open>container_is_empty\<close> when
  the counter is zero; otherwise it throws \<^verbatim>\<open>invalid_iterator\<close> when the owner of \<open>pos\<close> is
  not \<open>l\<close>, its node pointer is null, or it is at the tail sentinel; both leave the state
  as it was. At a data node \<open>a\<close> of a well-formed list it returns: \<open>a\<close> is out of the chain
  and freed, the element at its position is gone, the counter is one less, and the
  returned iterator is at the node that followed \<open>a\<close>, which is \<^verbatim>\<open>end()\<close> when \<open>a\<close> was last.
\<close>

theorem erase_contract:
  "(lists s l = Some L \<and> n L = 0 \<longrightarrow> list_erase s l pos = Throw container_is_empty s) \<and>
   (lists s l = Some L \<and> 0 < n L \<and> (owner pos \<noteq> Some l \<or> p pos = None \<or> p pos = tail L) \<longrightarrow>
      list_erase s l pos = Throw invalid_iterator s) \<and>
   (is_list s l hn (as1 @ a # as2) tn xs \<longrightarrow>
      (\<exists>s'. list_erase s l \<lparr>p = Some a, owner = Some l\<rparr>
               = Return s' \<lparr>p = hdp (Some tn) as2, owner = Some l\<rparr> \<and>
            is_list s' l hn (as1 @ as2) tn (take (length as1) xs @ drop (Suc (length as1)) xs) \<and>
            look (nodes s') a = None \<and>
            list_size s' l = Return s' (length (as1 @ a # as2) - 1) \<and>
            list_end s' l = Return s' \<lparr>p = Some tn, owner = Some l\<rparr>))"
proof (intro conjI impI)
  assume "lists s l = Some L \<and> n L = 0"
  then show "list_erase s l pos = Throw container_is_empty s"
    by (simp add: list_erase_def)
next
  assume "lists s l = Some L \<and> 0 < n L \<and> (owner pos \<noteq> Some l \<or> p pos = None \<or> p pos = tail L)"
  then show "list_erase s l pos = Throw invalid_iterator s"
    by (auto simp: list_erase_def)
next
  assume I: "is_list s l hn (as1 @ a # as2) tn xs"
  from is_list_erase[OF I] obtain s' where s':
    "list_erase s l \<lparr>p = Some a, owner = Some l\<rparr> = Return s' \<lparr>p = hdp (Some tn) as2, owner = Some l\<rparr>"
    "is_list s' l hn (as1 @ as2) tn (take (length as1) xs @ drop (Suc (length as1)) xs)"
    "look (nodes s') a = None" by blast
  have "list_end s' l = Return s' \<lparr>p = Some tn, owner = Some l\<rparr>"
    using s'(2) by (simp add: is_list_def list_end_def)
  then show "\<exists>s'. list_erase s l \<lparr>p = Some a, owner = Some l\<rparr>
               = Return s' \<lparr>p = hdp (Some tn) as2, owner = Some l\<rparr> \<and>
            is_list s' l hn (as1 @ as2) tn (take (length as1) xs @ drop (Suc (length as1)) xs) \<and>
            look (nodes s') a = None \<and>
            list_size s' l = Return s' (length (as1 @ a # as2) - 1) \<and>
            list_end s' l = Return s' \<lparr>p = Some tn, owner = Some l\<rparr>"
    using s' is_list_size[OF s'(2)] by auto
qed

theorem erase_contract_witness:
  "lists ex_nil 7 = Some \<lparr>head = Some 0, tail = Some 1, n = 0\<rparr> \<and>
   list_erase ex_nil 7 \<lparr>p = Some 1, owner = Some 7\<rparr> = Throw container_is_empty ex_nil \<and>
   lists ex_one 7 = Some \<lparr>head = Some 0, tail = Some 1, n = 1\<rparr> \<and>
   list_erase ex_one 7 \<lparr>p = Some 1, owner = Some 7\<rparr> = Throw invalid_iterator ex_one \<and>
   list_erase ex_one 7 \<lparr>p = Some 2, owner = Some 8\<rparr> = Throw invalid_iterator ex_one \<and>
   list_erase ex_one 7 \<lparr>p = None, owner = Some 7\<rparr> = Throw invalid_iterator ex_one \<and>
   is_list ex_one 7 0 [2] 1 [1] \<and>
   list_erase ex_one 7 \<lparr>p = Some 2, owner = Some 7\<rparr>
     = Return (ex_nil\<lparr>nodes := nodes ex_nil @ [None]\<rparr>) \<lparr>p = Some 1, owner = Some 7\<rparr>"
proof -
  have a: "lists ex_nil 7 = Some \<lparr>head = Some 0, tail = Some 1, n = 0\<rparr>" by (simp add: ex_nil_def)
  have b: "lists ex_one 7 = Some \<lparr>head = Some 0, tail = Some 1, n = 1\<rparr>" by (simp add: ex_one_def)
  have c: "is_list ex_one 7 0 ([] @ 2 # []) 1 [1]" using ex_one_is_list by simp
  have e: "list_erase ex_one 7 \<lparr>p = Some 2, owner = Some 7\<rparr>
     = Return (ex_nil\<lparr>nodes := nodes ex_nil @ [None]\<rparr>) \<lparr>p = Some 1, owner = Some 7\<rparr>"
    by (simp add: list_erase_def ex_one_def ex_nil_def heap_eval)
  show ?thesis
    using a b c e
      erase_contract[of ex_nil 7 "\<lparr>head = Some 0, tail = Some 1, n = 0\<rparr>" "\<lparr>p = Some 1, owner = Some 7\<rparr>"
         0 "[]" 2 "[]" 1 "[1]"]
      erase_contract[of ex_one 7 "\<lparr>head = Some 0, tail = Some 1, n = 1\<rparr>" "\<lparr>p = Some 1, owner = Some 7\<rparr>"
         0 "[]" 2 "[]" 1 "[1]"]
      erase_contract[of ex_one 7 "\<lparr>head = Some 0, tail = Some 1, n = 1\<rparr>" "\<lparr>p = Some 2, owner = Some 8\<rparr>"
         0 "[]" 2 "[]" 1 "[1]"]
      erase_contract[of ex_one 7 "\<lparr>head = Some 0, tail = Some 1, n = 1\<rparr>" "\<lparr>p = None, owner = Some 7\<rparr>"
         0 "[]" 2 "[]" 1 "[1]"]
    by simp
qed

section \<open>Erasing at the head sentinel\<close>

text \<open>
  On the list \<open>[1]\<close>, \<^verbatim>\<open>erase\<close> at the head sentinel is not answered with an exception and
  does not return: it faults inside the unlink primitive.
\<close>

theorem erase_head_sentinel_example:
  "list_erase ex_one 7 \<lparr>p = Some 0, owner = Some 7\<rparr> = Fault"
  by (simp add: list_erase_def ex_one_def heap_eval)

text \<open>
  C9. The iterator check of \<^verbatim>\<open>erase\<close> throws \<^verbatim>\<open>invalid_iterator\<close> exactly for an owner
  mismatch, a null node pointer and the tail sentinel (on a non-empty list); the head
  sentinel is not among them, although \<^verbatim>\<open>operator*\<close>, \<^verbatim>\<open>operator->\<close> and \<^verbatim>\<open>operator--\<close> all
  test for it. On every well-formed non-empty list the iterator at the first data node is
  decremented to the head sentinel without an exception, and \<^verbatim>\<open>erase\<close> at the head sentinel
  passes both checks and goes on to the unlink primitive, where the code leaves defined
  behaviour at the null \<^verbatim>\<open>prev\<close> link of the sentinel. The missing test is a defect of the
  code: an invalid position is to be answered with \<^verbatim>\<open>invalid_iterator\<close>.
\<close>

theorem erase_at_head_sentinel:
  "(lists s0 l0 = Some L \<longrightarrow>
      (list_erase s0 l0 pos = Throw invalid_iterator s0) =
      (0 < n L \<and> (owner pos \<noteq> Some l0 \<or> p pos = None \<or> p pos = tail L))) \<and>
   (is_list s l hn (a # as) tn xs \<longrightarrow>
     list_begin s l = Return s \<lparr>p = Some a, owner = Some l\<rparr> \<and>
     iterator_dec_pre s \<lparr>p = Some a, owner = Some l\<rparr>
       = Return \<lparr>p = Some hn, owner = Some l\<rparr> \<lparr>p = Some hn, owner = Some l\<rparr> \<and>
     iterator_dec_post s \<lparr>p = Some a, owner = Some l\<rparr>
       = Return \<lparr>p = Some hn, owner = Some l\<rparr> \<lparr>p = Some a, owner = Some l\<rparr> \<and>
     erase_node (nodes s) (Some hn) = None \<and>
     list_erase s l \<lparr>p = Some hn, owner = Some l\<rparr> = Fault)"
proof (rule conjI)
  show "lists s0 l0 = Some L \<longrightarrow>
      (list_erase s0 l0 pos = Throw invalid_iterator s0) =
      (0 < n L \<and> (owner pos \<noteq> Some l0 \<or> p pos = None \<or> p pos = tail L))"
    by (auto simp: list_erase_def split: option.splits)
next
  have "list_begin s l = Return s \<lparr>p = Some a, owner = Some l\<rparr> \<and>
     iterator_dec_pre s \<lparr>p = Some a, owner = Some l\<rparr>
       = Return \<lparr>p = Some hn, owner = Some l\<rparr> \<lparr>p = Some hn, owner = Some l\<rparr> \<and>
     iterator_dec_post s \<lparr>p = Some a, owner = Some l\<rparr>
       = Return \<lparr>p = Some hn, owner = Some l\<rparr> \<lparr>p = Some a, owner = Some l\<rparr> \<and>
     erase_node (nodes s) (Some hn) = None \<and>
     list_erase s l \<lparr>p = Some hn, owner = Some l\<rparr> = Fault"
    if I: "is_list s l hn (a # as) tn xs"
  proof -
    from I have Ls: "lists s l = Some \<lparr>head = Some hn, tail = Some tn, n = length (a # as)\<rparr>"
      and L: "links (nodes s) (hn # (a # as) @ [tn])" by (simp_all add: is_list_def)
    have d: "a \<noteq> hn" "a \<noteq> tn" "hn \<noteq> tn" using links_distinct[OF L] by auto
    from is_list_head_node[OF I] obtain hnd where hnd:
      "look (nodes s) hn = Some hnd" "prev hnd = None" "next hnd = Some a" by auto
    from is_list_data_node[of s l hn "[]" a as tn xs] I obtain nd where nd:
      "look (nodes s) a = Some nd" "prev nd = Some hn" by auto
    have e: "erase_node (nodes s) (Some hn) = None"
      using hnd by (simp add: erase_node_def deref_def set_next_def)
    show ?thesis
      using Ls d hnd nd e
      by (simp add: list_begin_def iterator_dec_pre_def iterator_dec_post_def list_erase_def
          deref_def deref_list_def)
  qed
  then show "is_list s l hn (a # as) tn xs \<longrightarrow>
     list_begin s l = Return s \<lparr>p = Some a, owner = Some l\<rparr> \<and>
     iterator_dec_pre s \<lparr>p = Some a, owner = Some l\<rparr>
       = Return \<lparr>p = Some hn, owner = Some l\<rparr> \<lparr>p = Some hn, owner = Some l\<rparr> \<and>
     iterator_dec_post s \<lparr>p = Some a, owner = Some l\<rparr>
       = Return \<lparr>p = Some hn, owner = Some l\<rparr> \<lparr>p = Some a, owner = Some l\<rparr> \<and>
     erase_node (nodes s) (Some hn) = None \<and>
     list_erase s l \<lparr>p = Some hn, owner = Some l\<rparr> = Fault"
    by blast
qed

theorem erase_at_head_sentinel_witness:
  "is_list ex_one 7 0 [2] 1 [1] \<and>
   iterator_dec_pre ex_one \<lparr>p = Some 2, owner = Some 7\<rparr>
       = Return \<lparr>p = Some 0, owner = Some 7\<rparr> \<lparr>p = Some 0, owner = Some 7\<rparr> \<and>
   list_erase ex_one 7 \<lparr>p = Some 0, owner = Some 7\<rparr> = Fault"
  using ex_one_is_list erase_at_head_sentinel[of ex_one 7 _ _ ex_one 7 0 2 "[]" 1 "[1]"] by simp


section \<open>Reversal\<close>

text \<open>
  C5. On a well-formed list with data nodes \<open>as\<close> and elements \<open>xs\<close>, \<^verbatim>\<open>reverse()\<close> returns;
  the list is then well formed with the same data nodes in reverse order, holding the
  elements in reverse order (the sentinels have changed roles). Every address holds the
  element it held before, so nothing was copied or moved, and an iterator at a data node
  dereferences as before. A second \<^verbatim>\<open>reverse()\<close> returns the state before the first one:
  the same order, the same nodes, the same links.
\<close>

theorem reverse_contract:
  "is_list s l hn as tn xs \<longrightarrow>
     (\<exists>s'. list_reverse s l = Some (Return s' ()) \<and>
        is_list s' l tn (rev as) hn (rev xs) \<and>
        vals (nodes s') = vals (nodes s) \<and>
        (\<forall>a\<in>set as. iterator_deref s' \<lparr>p = Some a, owner = Some l\<rparr>
                       = iterator_deref s \<lparr>p = Some a, owner = Some l\<rparr>) \<and>
        list_reverse s' l = Some (Return s ()))"
proof
  assume I: "is_list s l hn as tn xs"
  let ?cs = "hn # as @ [tn]"
  from I have Ls: "lists s l = Some \<lparr>head = Some hn, tail = Some tn, n = length as\<rparr>"
    by (simp add: is_list_def)
  from is_list_reverse[OF I] obtain h' where h':
    "list_reverse s l
       = Some (Return (s\<lparr>nodes := h',
             lists := (lists s)(l \<mapsto> \<lparr>head = Some tn, tail = Some hn, n = length as\<rparr>)\<rparr>) ())"
    "length h' = length (nodes s)"
    "\<forall>a. look h' a = (if a \<in> set ?cs then map_option swap_links (look (nodes s) a) else look (nodes s) a)"
    "is_list (s\<lparr>nodes := h',
             lists := (lists s)(l \<mapsto> \<lparr>head = Some tn, tail = Some hn, n = length as\<rparr>)\<rparr>)
        l tn (rev as) hn (rev xs)"
    by blast
  let ?s' = "s\<lparr>nodes := h', lists := (lists s)(l \<mapsto> \<lparr>head = Some tn, tail = Some hn, n = length as\<rparr>)\<rparr>"
  have v: "vals (nodes ?s') = vals (nodes s)" using vals_swapped[OF h'(2,3)] by simp
  have it: "\<forall>a\<in>set as. iterator_deref ?s' \<lparr>p = Some a, owner = Some l\<rparr>
                       = iterator_deref s \<lparr>p = Some a, owner = Some l\<rparr>"
  proof
    fix a assume a: "a \<in> set as"
    then have a': "a \<in> set (rev as)" by simp
    from is_list_deref[OF I a] is_list_deref[OF h'(4) a'] vals_vl[OF v, of a]
    show "iterator_deref ?s' \<lparr>p = Some a, owner = Some l\<rparr>
                       = iterator_deref s \<lparr>p = Some a, owner = Some l\<rparr>" by auto
  qed
  from is_list_reverse[OF h'(4)] obtain hb where hb:
    "list_reverse ?s' l
       = Some (Return (?s'\<lparr>nodes := hb,
             lists := (lists ?s')(l \<mapsto> \<lparr>head = Some hn, tail = Some tn, n = length (rev as)\<rparr>)\<rparr>) ())"
    "length hb = length (nodes ?s')"
    "\<forall>a. look hb a = (if a \<in> set (tn # rev as @ [hn]) then map_option swap_links (look (nodes ?s') a)
                        else look (nodes ?s') a)"
    by blast
  have "\<And>a. look hb a = look (nodes s) a"
    using hb(3) h'(3) by (auto simp: option.map_comp comp_def option.map_ident)
  with hb(2) h'(2) have hh: "hb = nodes s" by (intro heap_ext) auto
  have ll: "(lists s)(l \<mapsto> \<lparr>head = Some hn, tail = Some tn, n = length as\<rparr>) = lists s"
    using Ls by (auto simp: fun_eq_iff)
  have "?s'\<lparr>nodes := hb,
             lists := (lists ?s')(l \<mapsto> \<lparr>head = Some hn, tail = Some tn, n = length (rev as)\<rparr>)\<rparr> = s"
    by (simp add: hh ll)
  with hb(1) have twice: "list_reverse ?s' l = Some (Return s ())" by simp
  show "\<exists>s'. list_reverse s l = Some (Return s' ()) \<and>
        is_list s' l tn (rev as) hn (rev xs) \<and>
        vals (nodes s') = vals (nodes s) \<and>
        (\<forall>a\<in>set as. iterator_deref s' \<lparr>p = Some a, owner = Some l\<rparr>
                       = iterator_deref s \<lparr>p = Some a, owner = Some l\<rparr>) \<and>
        list_reverse s' l = Some (Return s ())"
    using h'(1,4) v it twice by blast
qed

theorem reverse_contract_witness:
  "is_list ex_three 7 0 [2, 3, 4] 1 [1, 2, 3] \<and>
   (\<exists>s'. list_reverse ex_three 7 = Some (Return s' ()) \<and>
      is_list s' 7 1 [4, 3, 2] 0 [3, 2, 1] \<and>
      iterator_deref s' \<lparr>p = Some 3, owner = Some 7\<rparr> = Return \<lparr>p = Some 3, owner = Some 7\<rparr> 2 \<and>
      list_reverse s' 7 = Some (Return ex_three ()))"
proof -
  have d: "iterator_deref ex_three \<lparr>p = Some 3, owner = Some 7\<rparr> = Return \<lparr>p = Some 3, owner = Some 7\<rparr> 2"
    by (simp add: iterator_deref_def ex_three_def heap_eval)
  from reverse_contract[of ex_three 7 0 "[2, 3, 4]" 1 "[1, 2, 3]"] ex_three_is_list
  obtain s' where "list_reverse ex_three 7 = Some (Return s' ())"
      "is_list s' 7 1 [4, 3, 2] 0 [3, 2, 1]"
      "iterator_deref s' \<lparr>p = Some 3, owner = Some 7\<rparr> = iterator_deref ex_three \<lparr>p = Some 3, owner = Some 7\<rparr>"
      "list_reverse s' 7 = Some (Return ex_three ())" by auto
  then show ?thesis using ex_three_is_list d by auto
qed


section \<open>Removing consecutive duplicates\<close>

text \<open>
  C6. On a well-formed list with data nodes \<open>as\<close> and elements \<open>xs\<close>, \<^verbatim>\<open>unique()\<close> returns;
  the data nodes are then the first node of each maximal run of equal elements, in order,
  and the elements are \<open>xs\<close> with every run shrunk to one element (\<open>remdups_adj\<close>), so equal
  elements that are not adjacent both stay. Every other data node has been freed. The
  counter is the number of runs. With at most one element the state is unchanged.
\<close>

theorem unique_contract:
  "is_list s l hn as tn xs \<longrightarrow>
     (\<exists>s'. list_unique s l = Some (Return s' ()) \<and>
        is_list s' l hn (run_heads (vl (nodes s)) as) tn (remdups_adj xs) \<and>
        (\<forall>a\<in>set as. a \<notin> set (run_heads (vl (nodes s)) as) \<longrightarrow> look (nodes s') a = None) \<and>
        list_size s' l = Return s' (length (remdups_adj xs)) \<and>
        (length as \<le> 1 \<longrightarrow> s' = s))"
proof
  assume I: "is_list s l hn as tn xs"
  from is_list_unique[OF I] obtain s' where s':
    "list_unique s l = Some (Return s' ())"
    "is_list s' l hn (run_heads (vl (nodes s)) as) tn (remdups_adj xs)"
    "\<forall>a\<in>set as. a \<notin> set (run_heads (vl (nodes s)) as) \<longrightarrow> look (nodes s') a = None"
    "length as \<le> 1 \<longrightarrow> s' = s"
    unfolding uniq_nodes_run_heads by blast
  from s'(2) have "map (vl (nodes s')) (run_heads (vl (nodes s)) as) = map Some (remdups_adj xs)"
    by (simp add: is_list_def)
  from arg_cong[OF this, of length]
  have "length (run_heads (vl (nodes s)) as) = length (remdups_adj xs)" by simp
  with is_list_size[OF s'(2)] have "list_size s' l = Return s' (length (remdups_adj xs))" by simp
  with s' show "\<exists>s'. list_unique s l = Some (Return s' ()) \<and>
        is_list s' l hn (run_heads (vl (nodes s)) as) tn (remdups_adj xs) \<and>
        (\<forall>a\<in>set as. a \<notin> set (run_heads (vl (nodes s)) as) \<longrightarrow> look (nodes s') a = None) \<and>
        list_size s' l = Return s' (length (remdups_adj xs)) \<and>
        (length as \<le> 1 \<longrightarrow> s' = s)"
    by blast
qed

theorem unique_contract_witness:
  "is_list ex_runs 7 0 [2, 3, 4, 5, 6, 7, 8] 1 [1, 1, 2, 2, 2, 3, 1] \<and>
   (\<exists>s'. list_unique ex_runs 7 = Some (Return s' ()) \<and>
      is_list s' 7 0 [2, 4, 7, 8] 1 [1, 2, 3, 1] \<and>
      look (nodes s') 3 = None \<and> look (nodes s') 5 = None \<and> look (nodes s') 6 = None \<and>
      list_size s' 7 = Return s' 4)"
proof -
  have h: "run_heads (vl (nodes ex_runs)) [2, 3, 4, 5, 6, 7, 8] = [2, 4, 7, 8]"
    by (simp add: run_heads_def vl_def look_def ex_runs_def)
  from unique_contract[of ex_runs 7 0 "[2, 3, 4, 5, 6, 7, 8]" 1 "[1, 1, 2, 2, 2, 3, 1]"]
    ex_runs_is_list
  obtain s' where "list_unique ex_runs 7 = Some (Return s' ())"
    "is_list s' 7 0 [2, 4, 7, 8] 1 [1, 2, 3, 1]"
    "\<forall>a\<in>set [2, 3, 4, 5, 6, 7, 8]. a \<notin> set [2, 4, 7, 8] \<longrightarrow> look (nodes s') a = None"
    "list_size s' 7 = Return s' 4"
    unfolding h by auto
  then show ?thesis using ex_runs_is_list by auto
qed


section \<open>Merging\<close>

text \<open>
  C1. \<^verbatim>\<open>A.merge(A)\<close> returns at once with the state unchanged. For two distinct well-formed
  lists that share no node, with ascending elements \<open>xs\<close> in the data nodes \<open>as\<close> of \<^verbatim>\<open>A\<close> and
  \<open>ys\<close> in the data nodes \<open>bs\<close> of \<^verbatim>\<open>B\<close>, \<^verbatim>\<open>A.merge(B)\<close> returns; then \<^verbatim>\<open>B\<close> is well formed and
  empty with \<^verbatim>\<open>size()\<close> zero, and \<^verbatim>\<open>A\<close> is well formed with data nodes \<open>cs\<close> and elements \<open>zs\<close>
  where: \<open>zs\<close> is ascending; \<open>cs\<close> consists of the nodes of \<open>as\<close> in their order and of the
  nodes of \<open>bs\<close> in their order, and of nothing else; a node of \<open>as\<close> that comes after a node
  of \<open>bs\<close> holds a strictly greater element, so among equal elements those of \<^verbatim>\<open>A\<close> come
  first. Every address holds the element it held before: no element is copied or moved.
\<close>

theorem merge_contract:
  "list_merge s0 l0 l0 = Some (Return s0 ()) \<and>
   (is_list s l hA as tA xs \<and> is_list s other hB bs tB ys \<and> l \<noteq> other \<and>
    set (hA # as @ [tA]) \<inter> set (hB # bs @ [tB]) = {} \<and> sorted xs \<and> sorted ys \<longrightarrow>
     (\<exists>s' cs zs. list_merge s l other = Some (Return s' ()) \<and>
        is_list s' l hA cs tA zs \<and>
        is_list s' other hB [] tB [] \<and> list_size s' other = Return s' 0 \<and>
        vals (nodes s') = vals (nodes s) \<and>
        zip cs zs = merge_tagged (zip as xs) (zip bs ys) \<and>
        sorted zs \<and> length cs = length as + length bs \<and>
        filter (\<lambda>c. c \<in> set as) cs = as \<and> filter (\<lambda>c. c \<in> set bs) cs = bs \<and>
        (\<forall>i j. i < j \<and> j < length cs \<and> cs ! i \<in> set bs \<and> cs ! j \<in> set as \<longrightarrow> zs ! i < zs ! j)))"
proof (rule conjI)
  show "list_merge s0 l0 l0 = Some (Return s0 ())" by (simp add: list_merge_def)
next
  have "\<exists>s' cs zs. list_merge s l other = Some (Return s' ()) \<and>
        is_list s' l hA cs tA zs \<and>
        is_list s' other hB [] tB [] \<and> list_size s' other = Return s' 0 \<and>
        vals (nodes s') = vals (nodes s) \<and>
        zip cs zs = merge_tagged (zip as xs) (zip bs ys) \<and>
        sorted zs \<and> length cs = length as + length bs \<and>
        filter (\<lambda>c. c \<in> set as) cs = as \<and> filter (\<lambda>c. c \<in> set bs) cs = bs \<and>
        (\<forall>i j. i < j \<and> j < length cs \<and> cs ! i \<in> set bs \<and> cs ! j \<in> set as \<longrightarrow> zs ! i < zs ! j)"
    if IA: "is_list s l hA as tA xs" and IB: "is_list s other hB bs tB ys" and ne: "l \<noteq> other"
      and dj: "set (hA # as @ [tA]) \<inter> set (hB # bs @ [tB]) = {}"
      and so: "sorted xs" "sorted ys"
  proof -
    define k where "k = (\<lambda>a. the (vl (nodes s) a))"
    let ?cs = "merge_nodes k as bs"
    from is_list_merge[OF IA IB ne dj k_def] obtain s' where kx: "map k as = xs" and ky: "map k bs = ys"
      and s': "list_merge s l other = Some (Return s' ())"
        "is_list s' l hA ?cs tA (map k ?cs)" "is_list s' other hB [] tB []"
        "vals (nodes s') = vals (nodes s)" by blast
    have d: "set as \<inter> set bs = {}" using dj by auto
    have sa: "sorted (map k as)" "sorted (map k bs)" using so kx ky by simp_all
    have z: "zip ?cs (map k ?cs) = merge_tagged (zip as xs) (zip bs ys)"
      unfolding kx[symmetric] ky[symmetric] zip_map_key merge_tagged_nodes ..
    have o: "\<forall>i j. i < j \<and> j < length ?cs \<and> ?cs ! i \<in> set bs \<and> ?cs ! j \<in> set as
               \<longrightarrow> map k ?cs ! i < map k ?cs ! j"
    proof (intro allI impI)
      fix i j assume a: "i < j \<and> j < length ?cs \<and> ?cs ! i \<in> set bs \<and> ?cs ! j \<in> set as"
      then have "k (?cs ! i) < k (?cs ! j)"
        using merge_nodes_order_nth[OF sa(1) d, of i j] by blast
      then show "map k ?cs ! i < map k ?cs ! j" using a by simp
    qed
    from s' z o sorted_merge_nodes[OF sa] filter_merge_nodes[OF d, of k] is_list_size[OF s'(3)]
    show ?thesis
      by - (rule exI[of _ s'], rule exI[of _ ?cs], rule exI[of _ "map k ?cs"], simp)
  qed
  then show "is_list s l hA as tA xs \<and> is_list s other hB bs tB ys \<and> l \<noteq> other \<and>
    set (hA # as @ [tA]) \<inter> set (hB # bs @ [tB]) = {} \<and> sorted xs \<and> sorted ys \<longrightarrow>
     (\<exists>s' cs zs. list_merge s l other = Some (Return s' ()) \<and>
        is_list s' l hA cs tA zs \<and>
        is_list s' other hB [] tB [] \<and> list_size s' other = Return s' 0 \<and>
        vals (nodes s') = vals (nodes s) \<and>
        zip cs zs = merge_tagged (zip as xs) (zip bs ys) \<and>
        sorted zs \<and> length cs = length as + length bs \<and>
        filter (\<lambda>c. c \<in> set as) cs = as \<and> filter (\<lambda>c. c \<in> set bs) cs = bs \<and>
        (\<forall>i j. i < j \<and> j < length cs \<and> cs ! i \<in> set bs \<and> cs ! j \<in> set as \<longrightarrow> zs ! i < zs ! j))"
    by blast
qed

theorem merge_contract_witness:
  "is_list ex_ab 7 0 [4, 5, 6] 1 [1, 3, 5] \<and> is_list ex_ab 8 2 [7, 8, 9] 3 [2, 3, 4] \<and>
   (\<exists>s'. list_merge ex_ab 7 8 = Some (Return s' ()) \<and>
      is_list s' 7 0 [4, 7, 5, 8, 9, 6] 1 [1, 2, 3, 3, 4, 5] \<and>
      is_list s' 8 2 [] 3 [] \<and> list_size s' 8 = Return s' 0)"
proof -
  have m: "merge_tagged (zip [4, 5, 6::nat] [1, 3, 5::int]) (zip [7, 8, 9] [2, 3, 4])
      = [(4, 1), (7, 2), (5, 3), (8, 3), (9, 4), (6, 5)]" by simp
  have pre: "is_list ex_ab 7 0 [4, 5, 6] 1 [1, 3, 5] \<and> is_list ex_ab 8 2 [7, 8, 9] 3 [2, 3, 4] \<and>
    (7::nat) \<noteq> 8 \<and> set (0 # [4, 5, 6] @ [1::nat]) \<inter> set (2 # [7, 8, 9] @ [3]) = {} \<and>
    sorted [1, 3, 5::int] \<and> sorted [2, 3, 4::int]"
    using ex_ab_is_list by simp
  from merge_contract[of _ _ ex_ab 7 0 "[4, 5, 6]" 1 "[1, 3, 5]" 8 2 "[7, 8, 9]" 3 "[2, 3, 4]"] pre
  obtain s' cs zs where s': "list_merge ex_ab 7 8 = Some (Return s' ())"
    "is_list s' 7 0 cs 1 zs" "is_list s' 8 2 [] 3 []" "list_size s' 8 = Return s' 0"
    "zip cs zs = merge_tagged (zip [4, 5, 6] [1, 3, 5]) (zip [7, 8, 9] [2, 3, 4])"
    by blast
  have len: "length cs = length zs" using s'(2) by (rule is_list_lengths)
  have "cs = map fst (zip cs zs)" "zs = map snd (zip cs zs)" using len by simp_all
  then have "cs = [4, 7, 5, 8, 9, 6]" "zs = [1, 2, 3, 3, 4, 5]" unfolding s'(5) m by simp_all
  then show ?thesis using s' ex_ab_is_list by auto
qed


section \<open>Assignment\<close>

text \<open>
  C10. Copy-assigning a list to itself returns at once with the state it was given: the
  elements, the counter and every node, sentinel or data, are what they were; nothing is
  freed and nothing is allocated. Assignment from a distinct well-formed list that shares
  no node with the target, in contrast, frees every data node the target had and gives it
  freshly allocated nodes holding the elements of the source.
\<close>

theorem self_assignment_is_noop:
  "list_assign s l l = Some (Return s ()) \<and>
   (is_list t l hL as tL xs \<and> is_list t other hO bs tO ys \<and> l \<noteq> other \<and>
    set (hL # as @ [tL]) \<inter> set (hO # bs @ [tO]) = {} \<longrightarrow>
      (\<exists>t' as'. list_assign t l other = Some (Return t' ()) \<and>
         is_list t' l hL as' tL ys \<and> is_list t' other hO bs tO ys \<and>
         (\<forall>a\<in>set as. look (nodes t') a = None) \<and>
         (\<forall>a\<in>set as'. length (nodes t) \<le> a)))"
  using is_list_assign[of t l hL as tL xs other hO bs tO ys]
  by (simp add: list_assign_def)

theorem self_assignment_is_noop_witness:
  "list_assign ex_ab 7 7 = Some (Return ex_ab ()) \<and>
   is_list ex_ab 7 0 [4, 5, 6] 1 [1, 3, 5] \<and> is_list ex_ab 8 2 [7, 8, 9] 3 [2, 3, 4] \<and>
   (\<exists>t' as'. list_assign ex_ab 7 8 = Some (Return t' ()) \<and>
      is_list t' 7 0 as' 1 [2, 3, 4] \<and>
      look (nodes t') 4 = None \<and> look (nodes t') 5 = None \<and> look (nodes t') 6 = None)"
proof -
  have pre: "is_list ex_ab 7 0 [4, 5, 6] 1 [1, 3, 5] \<and> is_list ex_ab 8 2 [7, 8, 9] 3 [2, 3, 4] \<and>
    (7::nat) \<noteq> 8 \<and> set (0 # [4, 5, 6] @ [1::nat]) \<inter> set (2 # [7, 8, 9] @ [3]) = {}"
    using ex_ab_is_list by simp
  note T = self_assignment_is_noop[of ex_ab 7 ex_ab 0 "[4, 5, 6]" 1 "[1, 3, 5]" 8
      2 "[7, 8, 9]" 3 "[2, 3, 4]"]
  from T have a: "list_assign ex_ab 7 7 = Some (Return ex_ab ())" by (rule conjunct1)
  from T[THEN conjunct2, THEN mp, OF pre] obtain t' as' where
    "list_assign ex_ab 7 8 = Some (Return t' ())" "is_list t' 7 0 as' 1 [2, 3, 4]"
    "\<forall>a\<in>set [4, 5, 6]. look (nodes t') a = None" by blast
  then show ?thesis using a ex_ab_is_list by auto
qed

section \<open>Failure leaves the state as it was\<close>

text \<open>
  C8. Every operation that throws \<^verbatim>\<open>container_is_empty\<close> or \<^verbatim>\<open>invalid_iterator\<close> throws with
  the state it was called in: \<^verbatim>\<open>front\<close>, \<^verbatim>\<open>back\<close>, \<^verbatim>\<open>insert\<close>, \<^verbatim>\<open>erase\<close>, \<^verbatim>\<open>pop_back\<close> and
  \<^verbatim>\<open>pop_front\<close> with the list state unchanged, the six iterator operators with the iterator
  unchanged (they only read the list). The constructor, \<^verbatim>\<open>begin\<close>, \<^verbatim>\<open>end\<close>, \<^verbatim>\<open>empty\<close>,
  \<^verbatim>\<open>size\<close>, the pushes, \<^verbatim>\<open>clear\<close>, the destructor, \<^verbatim>\<open>sort\<close>, \<^verbatim>\<open>merge\<close>, \<^verbatim>\<open>reverse\<close> and
  \<^verbatim>\<open>unique\<close> never throw. Assignment and copy construction call the throwing iterator
  operators in their loop after the target has been changed; on well-formed lists that
  share no node these calls do not throw and the operation returns.
\<close>

theorem failure_leaves_state_unchanged:
  "(list_front s l = Throw e s' \<longrightarrow> s' = s) \<and>
   (list_back s l = Throw e s' \<longrightarrow> s' = s) \<and>
   (list_insert s l pos v = Throw e s' \<longrightarrow> s' = s) \<and>
   (list_erase s l pos = Throw e s' \<longrightarrow> s' = s) \<and>
   (list_pop_back s l = Throw e s' \<longrightarrow> s' = s) \<and>
   (list_pop_front s l = Throw e s' \<longrightarrow> s' = s) \<and>
   (iterator_inc_pre s it = Throw e it' \<longrightarrow> it' = it) \<and>
   (iterator_inc_post s it = Throw e it' \<longrightarrow> it' = it) \<and>
   (iterator_dec_pre s it = Throw e it' \<longrightarrow> it' = it) \<and>
   (iterator_dec_post s it = Throw e it' \<longrightarrow> it' = it) \<and>
   (iterator_deref s it = Throw e it' \<longrightarrow> it' = it) \<and>
   (iterator_arrow s it = Throw e it' \<longrightarrow> it' = it) \<and>
   list_ctor s l \<noteq> Throw e s' \<and> list_begin s l \<noteq> Throw e s' \<and> list_end s l \<noteq> Throw e s' \<and>
   list_empty s l \<noteq> Throw e s' \<and> list_size s l \<noteq> Throw e s' \<and>
   list_push_back s l v \<noteq> Throw e s' \<and> list_push_front s l v \<noteq> Throw e s' \<and>
   list_clear s l \<noteq> Some (Throw e s') \<and> list_dtor s l \<noteq> Some (Throw e s') \<and>
   list_sort srt t l \<noteq> Some (Throw e t') \<and> list_merge t l other \<noteq> Some (Throw e t') \<and>
   list_reverse s l \<noteq> Some (Throw e s') \<and> list_unique s l \<noteq> Some (Throw e s') \<and>
   list_assign s l l = Some (Return s ()) \<and>
   (is_list s l hL as tL xs \<and> is_list s other hO bs tO ys \<and> l \<noteq> other \<and>
    set (hL # as @ [tL]) \<inter> set (hO # bs @ [tO]) = {} \<longrightarrow>
      (\<exists>s1. list_assign s l other = Some (Return s1 ()))) \<and>
   (is_list s other hO bs tO ys \<and> l \<noteq> other \<longrightarrow>
      (\<exists>s1. list_copy s l other = Some (Return s1 ())))"
proof -
  have h: "is_list s l hL as tL xs \<and> is_list s other hO bs tO ys \<and> l \<noteq> other \<and>
    set (hL # as @ [tL]) \<inter> set (hO # bs @ [tO]) = {} \<longrightarrow>
      (\<exists>s1. list_assign s l other = Some (Return s1 ()))"
    using is_list_assign[of s l hL as tL xs other hO bs tO ys] by blast
  have i: "is_list s other hO bs tO ys \<and> l \<noteq> other \<longrightarrow>
      (\<exists>s1. list_copy s l other = Some (Return s1 ()))"
    using is_list_copy[of s other hO bs tO ys l] by blast
  have j: "list_assign s l l = Some (Return s ())" by (simp add: list_assign_def)
  have a: "list_front s l = Throw e s' \<longrightarrow> s' = s" "list_back s l = Throw e s' \<longrightarrow> s' = s"
    "list_insert s l pos v = Throw e s' \<longrightarrow> s' = s" "list_erase s l pos = Throw e s' \<longrightarrow> s' = s"
    "list_pop_back s l = Throw e s' \<longrightarrow> s' = s" "list_pop_front s l = Throw e s' \<longrightarrow> s' = s"
    using front_throw[of s l e s'] back_throw[of s l e s'] insert_throw[of s l pos v e s']
      erase_throw[of s l pos e s'] pop_back_throw[of s l e s'] pop_front_throw[of s l e s']
    by blast+
  have d: "iterator_inc_pre s it = Throw e it' \<longrightarrow> it' = it"
    "iterator_inc_post s it = Throw e it' \<longrightarrow> it' = it"
    "iterator_dec_pre s it = Throw e it' \<longrightarrow> it' = it"
    "iterator_dec_post s it = Throw e it' \<longrightarrow> it' = it"
    "iterator_deref s it = Throw e it' \<longrightarrow> it' = it"
    "iterator_arrow s it = Throw e it' \<longrightarrow> it' = it"
    using inc_pre_throw[of s it e it'] inc_post_throw[of s it e it'] dec_pre_throw[of s it e it']
      dec_post_throw[of s it e it'] deref_throw[of s it e it'] arrow_throw[of s it e it']
    by blast+
  from a d queries_no_throw[of s l e s'] push_back_no_throw[of s l v e s']
    push_front_no_throw[of s l v e s'] list_clear_no_throw[of s l e s']
    list_dtor_no_throw[of s l e s'] list_sort_no_throw[of srt t l e t']
    list_merge_no_throw[of t l other e t'] list_reverse_no_throw[of s l e s']
    list_unique_no_throw[of s l e s'] j h i
  show ?thesis by (intro conjI)
qed

theorem failure_leaves_state_unchanged_witness:
  "list_front ex_nil 7 = Throw container_is_empty ex_nil \<and>
   list_back ex_nil 7 = Throw container_is_empty ex_nil \<and>
   list_erase ex_nil 7 \<lparr>p = Some 0, owner = Some 7\<rparr> = Throw container_is_empty ex_nil \<and>
   list_pop_back ex_nil 7 = Throw container_is_empty ex_nil \<and>
   list_pop_front ex_nil 7 = Throw container_is_empty ex_nil \<and>
   list_insert ex_one 7 \<lparr>p = Some 2, owner = Some 8\<rparr> 5 = Throw invalid_iterator ex_one \<and>
   list_erase ex_one 7 \<lparr>p = Some 2, owner = Some 8\<rparr> = Throw invalid_iterator ex_one \<and>
   iterator_inc_pre ex_one \<lparr>p = Some 1, owner = Some 7\<rparr>
     = Throw invalid_iterator \<lparr>p = Some 1, owner = Some 7\<rparr> \<and>
   iterator_inc_post ex_one \<lparr>p = Some 1, owner = Some 7\<rparr>
     = Throw invalid_iterator \<lparr>p = Some 1, owner = Some 7\<rparr> \<and>
   iterator_dec_pre ex_one \<lparr>p = Some 0, owner = Some 7\<rparr>
     = Throw invalid_iterator \<lparr>p = Some 0, owner = Some 7\<rparr> \<and>
   iterator_dec_post ex_one \<lparr>p = Some 0, owner = Some 7\<rparr>
     = Throw invalid_iterator \<lparr>p = Some 0, owner = Some 7\<rparr> \<and>
   iterator_deref ex_one \<lparr>p = Some 1, owner = Some 7\<rparr>
     = Throw invalid_iterator \<lparr>p = Some 1, owner = Some 7\<rparr> \<and>
   iterator_arrow ex_one \<lparr>p = Some 1, owner = Some 7\<rparr>
     = Throw invalid_iterator \<lparr>p = Some 1, owner = Some 7\<rparr> \<and>
   (\<exists>s1. list_assign ex_ab 7 8 = Some (Return s1 ())) \<and>
   (\<exists>s1. list_copy ex_ab 9 8 = Some (Return s1 ()))"
proof -
  have t1: "list_front ex_nil 7 = Throw container_is_empty ex_nil"
    "list_back ex_nil 7 = Throw container_is_empty ex_nil"
    "list_erase ex_nil 7 \<lparr>p = Some 0, owner = Some 7\<rparr> = Throw container_is_empty ex_nil"
    "list_pop_back ex_nil 7 = Throw container_is_empty ex_nil"
    "list_pop_front ex_nil 7 = Throw container_is_empty ex_nil"
    by (simp_all add: list_front_def list_back_def list_erase_def list_pop_back_def
        list_pop_front_def ex_nil_def)
  have t2: "list_insert ex_one 7 \<lparr>p = Some 2, owner = Some 8\<rparr> 5 = Throw invalid_iterator ex_one"
    "list_erase ex_one 7 \<lparr>p = Some 2, owner = Some 8\<rparr> = Throw invalid_iterator ex_one"
    by (simp_all add: list_insert_def list_erase_def ex_one_def)
  have t3: "iterator_inc_pre ex_one \<lparr>p = Some 1, owner = Some 7\<rparr>
       = Throw invalid_iterator \<lparr>p = Some 1, owner = Some 7\<rparr>"
    "iterator_inc_post ex_one \<lparr>p = Some 1, owner = Some 7\<rparr>
       = Throw invalid_iterator \<lparr>p = Some 1, owner = Some 7\<rparr>"
    "iterator_dec_pre ex_one \<lparr>p = Some 0, owner = Some 7\<rparr>
       = Throw invalid_iterator \<lparr>p = Some 0, owner = Some 7\<rparr>"
    "iterator_dec_post ex_one \<lparr>p = Some 0, owner = Some 7\<rparr>
       = Throw invalid_iterator \<lparr>p = Some 0, owner = Some 7\<rparr>"
    "iterator_deref ex_one \<lparr>p = Some 1, owner = Some 7\<rparr>
       = Throw invalid_iterator \<lparr>p = Some 1, owner = Some 7\<rparr>"
    "iterator_arrow ex_one \<lparr>p = Some 1, owner = Some 7\<rparr>
       = Throw invalid_iterator \<lparr>p = Some 1, owner = Some 7\<rparr>"
    by (simp_all add: iterator_inc_pre_def iterator_inc_post_def iterator_dec_pre_def
        iterator_dec_post_def iterator_deref_def iterator_arrow_def deref_list_def ex_one_def)
  have pre: "is_list ex_ab 7 0 [4, 5, 6] 1 [1, 3, 5] \<and> is_list ex_ab 8 2 [7, 8, 9] 3 [2, 3, 4] \<and>
    (7::nat) \<noteq> 8 \<and> set (0 # [4, 5, 6] @ [1::nat]) \<inter> set (2 # [7, 8, 9] @ [3]) = {}"
    "is_list ex_ab 8 2 [7, 8, 9] 3 [2, 3, 4] \<and> (9::nat) \<noteq> 8"
    using ex_ab_is_list by simp_all
  note T1 = failure_leaves_state_unchanged[of ex_ab 7 container_is_empty ex_ab
      iterator_default 0 iterator_default iterator_default "\<lambda>lt qs. qs" ex_ab ex_ab 8
      0 "[4, 5, 6]" 1 "[1, 3, 5]" 2 "[7, 8, 9]" 3 "[2, 3, 4]"]
  note T2 = failure_leaves_state_unchanged[of ex_ab 9 container_is_empty ex_ab
      iterator_default 0 iterator_default iterator_default "\<lambda>lt qs. qs" ex_ab ex_ab 8
      0 "[4, 5, 6]" 1 "[1, 3, 5]" 2 "[7, 8, 9]" 3 "[2, 3, 4]"]
  from T1 have v2: "is_list ex_ab 7 0 [4, 5, 6] 1 [1, 3, 5] \<and> is_list ex_ab 8 2 [7, 8, 9] 3 [2, 3, 4] \<and>
      (7::nat) \<noteq> 8 \<and> set (0 # [4, 5, 6] @ [1::nat]) \<inter> set (2 # [7, 8, 9] @ [3]) = {} \<longrightarrow>
      (\<exists>s1. list_assign ex_ab 7 8 = Some (Return s1 ()))"
    by (elim conjE)
  from T2 have v3: "is_list ex_ab 8 2 [7, 8, 9] 3 [2, 3, 4] \<and> (9::nat) \<noteq> 8 \<longrightarrow>
      (\<exists>s1. list_copy ex_ab 9 8 = Some (Return s1 ()))"
    by (elim conjE)
  have u2: "\<exists>s1. list_assign ex_ab 7 8 = Some (Return s1 ())" using v2 pre(1) by (rule mp)
  have u3: "\<exists>s1. list_copy ex_ab 9 8 = Some (Return s1 ())" using v3 pre(2) by (rule mp)
  show ?thesis
    by (intro conjI t1 t2 t3 u2 u3)
qed

end
